theory Spec2Isabelle
  imports Main "HOL-Library.Word" "HOL-Library.Sublist"
begin

section \<open>Sparse conditional constant propagation (cmd/compile/internal/ssa/sccp.go)\<close>

subsection \<open>The IR the pass works on\<close>

text \<open>
  A \<^verbatim>\<open>*Value\<close> and a \<^verbatim>\<open>*Block\<close> are addresses into the function's
  store; the nil pointer of a lattice cell is \<open>None\<close>.
\<close>

type_synonym vid = nat
type_synonym bid = nat

datatype Op =
    OpConst64 | OpConst32 | OpConst16 | OpConst8 | OpConstBool | OpConst32F | OpConst64F
  | OpCopy | OpPhi
  | OpAdd64 | OpAdd32 | OpAdd16 | OpAdd8 | OpAdd32F | OpAdd64F
  | OpSub64 | OpSub32 | OpSub16 | OpSub8 | OpSub32F | OpSub64F
  | OpMul64 | OpMul32 | OpMul16 | OpMul8 | OpMul32F | OpMul64F
  | OpDiv32F | OpDiv64F
  | OpDiv8 | OpDiv16 | OpDiv32 | OpDiv64
  | OpDiv8u | OpDiv16u | OpDiv32u | OpDiv64u
  | OpMod8 | OpMod16 | OpMod32 | OpMod64
  | OpMod8u | OpMod16u | OpMod32u | OpMod64u
  | OpEq64 | OpEq32 | OpEq16 | OpEq8 | OpEq32F | OpEq64F
  | OpLess64 | OpLess32 | OpLess16 | OpLess8
  | OpLess64U | OpLess32U | OpLess16U | OpLess8U
  | OpLess32F | OpLess64F
  | OpLeq64 | OpLeq32 | OpLeq16 | OpLeq8
  | OpLeq64U | OpLeq32U | OpLeq16U | OpLeq8U
  | OpLeq32F | OpLeq64F
  | OpOther nat

datatype BlockKind =
    BlockPlain | BlockIf | BlockJumpTable | BlockDefer | BlockFirst
  | BlockExit | BlockRet | BlockRetJmp | BlockInvalid | BlockOther nat

datatype BranchPrediction = BranchUnlikely | BranchUnknown | BranchLikely

record Value =
  Op :: Op
  Type :: nat
  AuxInt :: "64 word"
  Args :: "vid list"
  Block :: bid
  Pos :: nat
  Uses :: "32 word"

record Edge =
  eb :: bid
  ei :: nat

record Block =
  Kind :: BlockKind
  Succs :: "Edge list"
  Preds :: "Edge list"
  Controls :: "vid list"
  Values :: "vid list"
  Likely :: BranchPrediction

record Func =
  Blocks :: "bid list"
  Entry :: bid
  vals :: "vid \<Rightarrow> Value"
  blks :: "bid \<Rightarrow> Block"
  nextVid :: nat

subsection \<open>The lattice\<close>

type_synonym edge = "bid \<times> bid"

datatype tag = top_t | constant_t | bottom_t

record lattice =
  tag :: tag
  val :: "vid option"

datatype error =
    IndexOutOfRange
  | NilDereference
  | Fatal_def_use_chain
  | Fatal_must_be_constant
  | Fatal_block_kind
  | Fatal_should_not_reach

record worklist =
  fn :: Func
  edges :: "edge list"
  uses :: "vid list"
  visited :: "edge set"
  latticeCells :: "vid \<rightharpoonup> lattice"
  defUse :: "vid \<rightharpoonup> vid list"
  defBlock :: "vid \<rightharpoonup> bid list"

definition isVisited :: "worklist \<Rightarrow> edge \<Rightarrow> bool" where
  "isVisited t e = (e \<in> visited t)"

definition getLatticeCell :: "worklist \<Rightarrow> vid \<Rightarrow> lattice" where
  "getLatticeCell t v =
     (case latticeCells t v of
        None \<Rightarrow> \<lparr>tag = top_t, val = None\<rparr>
      | Some c \<Rightarrow> c)"

text \<open>
  \<^verbatim>\<open>meet\<close>: the loop over \<^verbatim>\<open>arr\<close> with the accumulator \<^verbatim>\<open>lt\<close>; the two
  \<^verbatim>\<open>return lattice{bottom, nil}\<close> leave the loop early.
\<close>

fun meet_loop :: "lattice \<Rightarrow> lattice list \<Rightarrow> lattice" where
  "meet_loop lt [] = lt"
| "meet_loop lt (t # ts) =
     (if tag t = bottom_t then \<lparr>tag = bottom_t, val = None\<rparr>
      else if tag t = constant_t then
        (if tag lt = top_t then meet_loop (lt\<lparr>tag := constant_t, val := val t\<rparr>) ts
         else if val lt \<noteq> val t then \<lparr>tag = bottom_t, val = None\<rparr>
         else meet_loop lt ts)
      else meet_loop lt ts)"

definition meet :: "lattice list \<Rightarrow> lattice" where
  "meet arr = meet_loop \<lparr>tag = top_t, val = None\<rparr> arr"


subsection \<open>Building the def-use chains\<close>

text \<open>
  \<^verbatim>\<open>t.defUse[arg] = append(t.defUse[arg], val)\<close>, the slice created when the key is new;
  the same for \<^verbatim>\<open>t.defBlock[ctl]\<close>. \<^verbatim>\<open>block.ControlValues()\<close> is the field
  \<open>Controls\<close>.
\<close>

definition appendAt :: "('k \<rightharpoonup> 'a list) \<Rightarrow> 'k \<Rightarrow> 'a \<Rightarrow> ('k \<rightharpoonup> 'a list)" where
  "appendAt m k x = m(k \<mapsto> (case m k of None \<Rightarrow> [] | Some xs \<Rightarrow> xs) @ [x])"

definition lookupList :: "('k \<rightharpoonup> 'a list) \<Rightarrow> 'k \<Rightarrow> 'a list" where
  "lookupList m k = (case m k of None \<Rightarrow> [] | Some xs \<Rightarrow> xs)"

definition buildValue :: "Func \<Rightarrow> (vid \<rightharpoonup> vid list) \<Rightarrow> vid \<Rightarrow> (vid \<rightharpoonup> vid list)" where
  "buildValue fu du v = foldl (\<lambda>m arg. appendAt m arg v) du (Args (vals fu v))"

definition buildBlock :: "worklist \<Rightarrow> bid \<Rightarrow> worklist" where
  "buildBlock t blk =
     t\<lparr>defUse := foldl (buildValue (fn t)) (defUse t) (Values (blks (fn t) blk)),
       defBlock := foldl (\<lambda>m ctl. appendAt m ctl blk) (defBlock t) (Controls (blks (fn t) blk))\<rparr>"

text \<open>
  The verification loop ranges over the map \<^verbatim>\<open>t.defUse\<close>; Go leaves the order of a map
  range unspecified, so the order \<open>ks\<close> of the keys is a parameter. \<^verbatim>\<open>Fatalf\<close> ends the
  pass.
\<close>

fun verifyDefUses :: "worklist \<Rightarrow> vid list \<Rightarrow> error + worklist" where
  "verifyDefUses t [] = Inr t"
| "verifyDefUses t (k # ks) =
     (case defUse t k of
        None \<Rightarrow> verifyDefUses t ks
      | Some us \<Rightarrow>
          if sint (Uses (vals (fn t) k)) \<noteq> int (length us + length (lookupList (defBlock t) k))
          then Inl Fatal_def_use_chain
          else verifyDefUses t ks)"

definition buildDefUses :: "vid list \<Rightarrow> worklist \<Rightarrow> error + worklist" where
  "buildDefUses ks t = verifyDefUses (foldl buildBlock t (Blocks (fn t))) ks"

subsection \<open>Opcode classes\<close>

definition isConstOp :: "Op \<Rightarrow> bool" where
  "isConstOp op \<longleftrightarrow>
     op \<in> {OpConst64, OpConst32, OpConst16, OpConst8, OpConstBool, OpConst32F, OpConst64F}"

definition isConst :: "Value \<Rightarrow> bool" where
  "isConst v = isConstOp (Op v)"

definition isDivOp :: "Op \<Rightarrow> bool" where
  "isDivOp op \<longleftrightarrow>
     op \<in> {OpDiv32F, OpDiv64F,
           OpDiv8, OpDiv16, OpDiv32, OpDiv64,
           OpMod8, OpMod16, OpMod32, OpMod64,
           OpDiv8u, OpDiv16u, OpDiv32u, OpDiv64u,
           OpMod8u, OpMod16u, OpMod32u, OpMod64u}"

text \<open>
  \<^verbatim>\<open>isDivByZero(op, divisor)\<close> reads \<^verbatim>\<open>divisor.AuxInt\<close> only inside the case of the
  division and modulo opcodes; a nil divisor panics there.
\<close>

definition isDivByZero :: "Func \<Rightarrow> Op \<Rightarrow> vid option \<Rightarrow> error + bool" where
  "isDivByZero fu op divisor =
     (if isDivOp op then
        (case divisor of
           None \<Rightarrow> Inl NilDereference
         | Some d \<Rightarrow> Inr (AuxInt (vals fu d) = 0))
      else Inr False)"

text \<open>The opcodes of the case \<^verbatim>\<open>eval constant expression\<close> of \<^verbatim>\<open>visitValue\<close>.\<close>

definition isEvalOp :: "Op \<Rightarrow> bool" where
  "isEvalOp op \<longleftrightarrow>
     op \<in> {OpAdd64, OpAdd32, OpAdd16, OpAdd8, OpAdd32F, OpAdd64F,
           OpSub64, OpSub32, OpSub16, OpSub8, OpSub32F, OpSub64F,
           OpMul64, OpMul32, OpMul16, OpMul8, OpMul32F, OpMul64F,
           OpDiv32F, OpDiv64F,
           OpDiv8, OpDiv16, OpDiv32, OpDiv64,
           OpDiv8u, OpDiv16u, OpDiv32u, OpDiv64u,
           OpMod8, OpMod16, OpMod32, OpMod64,
           OpMod8u, OpMod16u, OpMod32u, OpMod64u,
           OpEq64, OpEq32, OpEq16, OpEq8, OpEq32F, OpEq64F,
           OpLess64, OpLess32, OpLess16, OpLess8,
           OpLess64U, OpLess32U, OpLess16U, OpLess8U,
           OpLess32F, OpLess64F,
           OpLeq64, OpLeq32, OpLeq16, OpLeq8,
           OpLeq64U, OpLeq32U, OpLeq16U, OpLeq8U,
           OpLeq32F, OpLeq64F}"

subsection \<open>Phi\<close>

text \<open>
  The loop of \<^verbatim>\<open>visitPhi\<close> walks \<^verbatim>\<open>val.Args\<close> and \<^verbatim>\<open>val.Block.Preds\<close> by the
  same index; \<^verbatim>\<open>Preds[i]\<close> panics when the block has fewer predecessors than the phi
  has arguments.
\<close>

fun visitPhi_loop :: "worklist \<Rightarrow> bid \<Rightarrow> vid list \<Rightarrow> Edge list \<Rightarrow> lattice list \<Rightarrow> error + lattice list" where
  "visitPhi_loop t blk [] ps argLattice = Inr argLattice"
| "visitPhi_loop t blk (a # as) [] argLattice = Inl IndexOutOfRange"
| "visitPhi_loop t blk (a # as) (p # ps) argLattice =
     (if isVisited t (eb p, blk)
      then visitPhi_loop t blk as ps (argLattice @ [getLatticeCell t a])
      else visitPhi_loop t blk as ps argLattice)"

definition visitPhi :: "worklist \<Rightarrow> vid \<Rightarrow> error + worklist" where
  "visitPhi t v =
     (let vl = vals (fn t) v in
      case visitPhi_loop t (Block vl) (Args vl) (Preds (blks (fn t) (Block vl))) [] of
        Inl e \<Rightarrow> Inl e
      | Inr argLattice \<Rightarrow> Inr (t\<lparr>latticeCells := (latticeCells t)(v \<mapsto> meet argLattice)\<rparr>))"


subsection \<open>The constant evaluator\<close>

text \<open>
  Modelled from the spec: \<^verbatim>\<open>f.newValue\<close> is not in the source files at hand. Section 4.3
  (step 1): it allocates a fresh value node with the given opcode, type and position,
  attached to the given block. The fresh address is \<open>nextVid\<close>; the node is not entered
  into the block's list of values.
\<close>

definition newValue :: "Func \<Rightarrow> Op \<Rightarrow> nat \<Rightarrow> bid \<Rightarrow> nat \<Rightarrow> Func \<times> vid" where
  "newValue fu op ty blk pos =
     (fu\<lparr>vals := (vals fu)(nextVid fu :=
            \<lparr>Op = op, Type = ty, AuxInt = 0, Args = [], Block = blk, Pos = pos, Uses = 0\<rparr>),
          nextVid := Suc (nextVid fu)\<rparr>,
      nextVid fu)"

text \<open>
  Modelled from the spec: \<^verbatim>\<open>AddArgs\<close> is not in the source files at hand. Section 4.3
  (step 2): it attaches the arguments to the node.
\<close>

definition AddArgs :: "Func \<Rightarrow> vid \<Rightarrow> vid list \<Rightarrow> Func" where
  "AddArgs fu v as = fu\<lparr>vals := (vals fu)(v := (vals fu v)\<lparr>Args := Args (vals fu v) @ as\<rparr>)\<rparr>"

text \<open>
  \<^verbatim>\<open>rewriteValuegeneric\<close>, the generic rewriter, is not in the source files at hand; it is
  the parameter \<open>rw\<close>: it rewrites the value at the given address in place and reports
  whether a rule matched.
\<close>

type_synonym rewriter = "Func \<Rightarrow> vid \<Rightarrow> Func \<times> bool"

definition computeConstValue ::
    "rewriter \<Rightarrow> Func \<Rightarrow> Value \<Rightarrow> vid list \<Rightarrow> error + (Func \<times> vid \<times> bool)" where
  "computeConstValue rw fu vl as =
     (let (f1, constValue) = newValue fu (Op vl) (Type vl) (Entry fu) (Pos vl);
          f2 = AddArgs f1 constValue as;
          (f3, matched) = rw f2 constValue
      in if matched \<and> \<not> isConst (vals f3 constValue) then Inl Fatal_must_be_constant
         else Inr (f3, constValue, matched))"

subsection \<open>Propagation through the control flow graph\<close>

definition addEdges :: "worklist \<Rightarrow> bid \<Rightarrow> Edge list \<Rightarrow> worklist" where
  "addEdges t blk ss = t\<lparr>edges := edges t @ map (\<lambda>succ. (blk, eb succ)) ss\<rparr>"

text \<open>
  \<^verbatim>\<open>block.Succs[branch]\<close> with \<^verbatim>\<open>branch\<close> an \<^verbatim>\<open>int64\<close>: the index panics when it is
  negative or not below the length.
\<close>

definition succAt :: "Edge list \<Rightarrow> int \<Rightarrow> error + Edge" where
  "succAt ss n = (if 0 \<le> n \<and> n < int (length ss) then Inr (ss ! nat n) else Inl IndexOutOfRange)"

definition propagateCond :: "worklist \<Rightarrow> bid \<Rightarrow> error + worklist" where
  "propagateCond t blk =
     (let block = blks (fn t) blk in
      case Controls block of
        [] \<Rightarrow> Inl IndexOutOfRange
      | cond # cs \<Rightarrow>
          (let condLattice = getLatticeCell t cond in
           if tag condLattice = bottom_t then Inr (addEdges t blk (Succs block))
           else if tag condLattice = constant_t then
             (case val condLattice of
                None \<Rightarrow> Inl NilDereference
              | Some c \<Rightarrow>
                  (let branch = (if Kind block = BlockIf then 1 - AuxInt (vals (fn t) c)
                                 else AuxInt (vals (fn t) c))
                   in case succAt (Succs block) (sint branch) of
                        Inl e \<Rightarrow> Inl e
                      | Inr succ \<Rightarrow> Inr (addEdges t blk [succ])))
           else Inr t))"

definition propagate :: "worklist \<Rightarrow> bid \<Rightarrow> error + worklist" where
  "propagate t blk =
     (let block = blks (fn t) blk in
      case Kind block of
        BlockExit \<Rightarrow> Inr t
      | BlockRet \<Rightarrow> Inr t
      | BlockRetJmp \<Rightarrow> Inr t
      | BlockInvalid \<Rightarrow> Inr t
      | BlockDefer \<Rightarrow> Inr (addEdges t blk (Succs block))
      | BlockFirst \<Rightarrow>
          (case succAt (Succs block) 0 of
             Inl e \<Rightarrow> Inl e
           | Inr succ \<Rightarrow> Inr (addEdges t blk [succ]))
      | BlockPlain \<Rightarrow>
          (case succAt (Succs block) 0 of
             Inl e \<Rightarrow> Inl e
           | Inr succ \<Rightarrow> Inr (addEdges t blk [succ]))
      | BlockIf \<Rightarrow> propagateCond t blk
      | BlockJumpTable \<Rightarrow> propagateCond t blk
      | BlockOther n \<Rightarrow> Inl Fatal_block_kind)"

fun propagate_all :: "worklist \<Rightarrow> bid list \<Rightarrow> error + worklist" where
  "propagate_all t [] = Inr t"
| "propagate_all t (blk # bs) =
     (case propagate t blk of
        Inl e \<Rightarrow> Inl e
      | Inr t' \<Rightarrow> propagate_all t' bs)"

text \<open>\<^verbatim>\<open>addUses\<close>: a use that is the value itself is skipped.\<close>

definition addUses :: "worklist \<Rightarrow> vid \<Rightarrow> error + worklist" where
  "addUses t v =
     propagate_all
       (t\<lparr>uses := uses t @ filter (\<lambda>use. v \<noteq> use) (lookupList (defUse t) v)\<rparr>)
       (lookupList (defBlock t) v)"


subsection \<open>Visiting a value\<close>

definition setCell :: "worklist \<Rightarrow> vid \<Rightarrow> lattice \<Rightarrow> worklist" where
  "setCell t v c = t\<lparr>latticeCells := (latticeCells t)(v \<mapsto> c)\<rparr>"

definition worstLt :: lattice where
  "worstLt = \<lparr>tag = bottom_t, val = None\<rparr>"

text \<open>
  The case of the opcodes evaluated on constants. A nil \<^verbatim>\<open>lt.val\<close> handed to
  \<^verbatim>\<open>AddArgs\<close> would be dereferenced.
\<close>

definition visitEval :: "rewriter \<Rightarrow> worklist \<Rightarrow> vid \<Rightarrow> error + worklist" where
  "visitEval rw t v =
     (let vl = vals (fn t) v in
      case Args vl of
        a0 # a1 # as \<Rightarrow>
          (let lt1 = getLatticeCell t a0; lt2 = getLatticeCell t a1 in
           if tag lt1 \<noteq> constant_t \<or> tag lt2 \<noteq> constant_t then Inr (setCell t v worstLt)
           else
             (case isDivByZero (fn t) (Op vl) (val lt2) of
                Inl e \<Rightarrow> Inl e
              | Inr True \<Rightarrow> Inr (setCell t v worstLt)
              | Inr False \<Rightarrow>
                  (case (val lt1, val lt2) of
                     (Some p1, Some p2) \<Rightarrow>
                       (case computeConstValue rw (fn t) vl [p1, p2] of
                          Inl e \<Rightarrow> Inl e
                        | Inr (f', constValue, matched) \<Rightarrow>
                            if matched
                            then Inr (setCell (t\<lparr>fn := f'\<rparr>) v \<lparr>tag = constant_t, val = Some constValue\<rparr>)
                            else Inr (setCell (t\<lparr>fn := f'\<rparr>) v worstLt))
                   | _ \<Rightarrow> Inl NilDereference)))
      | _ \<Rightarrow> Inl IndexOutOfRange)"

text \<open>The \<^verbatim>\<open>switch val.Op\<close> of \<^verbatim>\<open>visitValue\<close>, without the deferred function.\<close>

definition visitValue_body :: "rewriter \<Rightarrow> worklist \<Rightarrow> vid \<Rightarrow> error + worklist" where
  "visitValue_body rw t v =
     (let vl = vals (fn t) v in
      if isConstOp (Op vl) then Inr (setCell t v \<lparr>tag = constant_t, val = Some v\<rparr>)
      else if Op vl = OpCopy then
        (case Args vl of
           [] \<Rightarrow> Inl IndexOutOfRange
         | a # as \<Rightarrow> Inr (setCell t v (getLatticeCell t a)))
      else if Op vl = OpPhi then visitPhi t v
      else if isEvalOp (Op vl) then visitEval rw t v
      else Inr (setCell t v worstLt))"

text \<open>
  \<^verbatim>\<open>visitValue\<close>: the body, then the deferred function, which compares the cell before
  and after by tag and by value pointer and re-visits the uses when they differ.
\<close>

definition visitValue :: "rewriter \<Rightarrow> worklist \<Rightarrow> vid \<Rightarrow> error + worklist" where
  "visitValue rw t v =
     (let oldLt = getLatticeCell t v in
      case visitValue_body rw t v of
        Inl e \<Rightarrow> Inl e
      | Inr t' \<Rightarrow>
          (let newLt = getLatticeCell t' v in
           if tag newLt \<noteq> tag oldLt \<or> val newLt \<noteq> val oldLt then addUses t' v
           else Inr t'))"

subsection \<open>The worklist loop\<close>

fun visitDest :: "rewriter \<Rightarrow> bool \<Rightarrow> worklist \<Rightarrow> vid list \<Rightarrow> error + worklist" where
  "visitDest rw destVisited t [] = Inr t"
| "visitDest rw destVisited t (v # vs) =
     (if Op (vals (fn t) v) = OpPhi \<or> \<not> destVisited then
        (case visitValue rw t v of
           Inl e \<Rightarrow> Inl e
         | Inr t' \<Rightarrow> visitDest rw destVisited t' vs)
      else visitDest rw destVisited t vs)"

text \<open>One edge taken from the worklist (the edge is already removed from \<open>edges\<close>).\<close>

definition visitEdge :: "rewriter \<Rightarrow> worklist \<Rightarrow> edge \<Rightarrow> error + worklist" where
  "visitEdge rw t e =
     (if \<not> isVisited t e then
        (let dest = snd e;
             destVisited = (\<exists>visitedEdge\<in>visited t. snd visitedEdge = dest);
             t1 = t\<lparr>visited := insert e (visited t)\<rparr>
         in case visitDest rw destVisited t1 (Values (blks (fn t1) dest)) of
              Inl err \<Rightarrow> Inl err
            | Inr t2 \<Rightarrow> if \<not> destVisited then propagate t2 dest else Inr t2)
      else Inr t)"

text \<open>One iteration of the \<^verbatim>\<open>for\<close> loop of \<^verbatim>\<open>sccp\<close> that does not \<^verbatim>\<open>break\<close>.\<close>

definition sccp_step :: "rewriter \<Rightarrow> worklist \<Rightarrow> error + worklist" where
  "sccp_step rw t =
     (case edges t of
        e # es \<Rightarrow> visitEdge rw (t\<lparr>edges := es\<rparr>) e
      | [] \<Rightarrow>
          (case uses t of
             use # us \<Rightarrow> visitValue rw (t\<lparr>uses := us\<rparr>) use
           | [] \<Rightarrow> Inr t))"

text \<open>
  The loop, with fuel: \<open>None\<close> when the fuel runs out before both worklists are empty.
\<close>

fun sccp_loop :: "rewriter \<Rightarrow> nat \<Rightarrow> worklist \<Rightarrow> (error + worklist) option" where
  "sccp_loop rw 0 t = (if edges t = [] \<and> uses t = [] then Some (Inr t) else None)"
| "sccp_loop rw (Suc m) t =
     (if edges t = [] \<and> uses t = [] then Some (Inr t)
      else case sccp_step rw t of
             Inl e \<Rightarrow> Some (Inl e)
           | Inr t' \<Rightarrow> sccp_loop rw m t')"

subsection \<open>Rewriting the function\<close>

definition removeAt :: "nat \<Rightarrow> 'a list \<Rightarrow> 'a list" where
  "removeAt n xs = take n xs @ drop (Suc n) xs"

definition updBlock :: "Func \<Rightarrow> bid \<Rightarrow> (Block \<Rightarrow> Block) \<Rightarrow> Func" where
  "updBlock fu blk g = fu\<lparr>blks := (blks fu)(blk := g (blks fu blk))\<rparr>"

definition updValue :: "Func \<Rightarrow> vid \<Rightarrow> (Value \<Rightarrow> Value) \<Rightarrow> Func" where
  "updValue fu v g = fu\<lparr>vals := (vals fu)(v := g (vals fu v))\<rparr>"

text \<open>
  Modelled from the spec: \<^verbatim>\<open>removeEdge\<close> is not in the source files at hand. Section 4.8:
  removing an edge updates the destination block's predecessor list, and any phi in the
  destination block loses the corresponding argument slot. The successor at the index
  leaves \<open>Succs\<close>; the predecessor slot it points back to (\<open>ei\<close>) leaves the destination's
  \<open>Preds\<close>; the edges that moved down get their new position as the back index of
  their reverse edge.
\<close>

definition renumberSuccs :: "Func \<Rightarrow> bid \<Rightarrow> Func" where
  "renumberSuccs fu blk =
     foldl (\<lambda>g k. let e = Succs (blks g blk) ! k
                  in updBlock g (eb e) (\<lambda>c. c\<lparr>Preds := (Preds c)[ei e := (Preds c ! ei e)\<lparr>ei := k\<rparr>]\<rparr>))
           fu [0 ..< length (Succs (blks fu blk))]"

definition renumberPreds :: "Func \<Rightarrow> bid \<Rightarrow> Func" where
  "renumberPreds fu blk =
     foldl (\<lambda>g k. let e = Preds (blks g blk) ! k
                  in updBlock g (eb e) (\<lambda>c. c\<lparr>Succs := (Succs c)[ei e := (Succs c ! ei e)\<lparr>ei := k\<rparr>]\<rparr>))
           fu [0 ..< length (Preds (blks fu blk))]"

definition removePhiArg :: "nat \<Rightarrow> Func \<Rightarrow> vid \<Rightarrow> Func" where
  "removePhiArg j fu v =
     (if Op (vals fu v) = OpPhi then updValue fu v (\<lambda>vl. vl\<lparr>Args := removeAt j (Args vl)\<rparr>)
      else fu)"

definition removeEdge :: "Func \<Rightarrow> bid \<Rightarrow> int \<Rightarrow> error + Func" where
  "removeEdge fu blk n =
     (case succAt (Succs (blks fu blk)) n of
        Inl err \<Rightarrow> Inl err
      | Inr e \<Rightarrow>
          (let c = eb e; j = ei e;
               f1 = renumberSuccs (updBlock fu blk (\<lambda>bl. bl\<lparr>Succs := removeAt (nat n) (Succs bl)\<rparr>)) blk;
               f2 = renumberPreds (updBlock f1 c (\<lambda>bl. bl\<lparr>Preds := removeAt j (Preds bl)\<rparr>)) c
           in Inr (foldl (removePhiArg j) f2 (Values (blks f2 c)))))"

text \<open>
  Modelled from the spec: \<^verbatim>\<open>reset\<close> and \<^verbatim>\<open>ResetControls\<close> are not in the source files
  at hand. Section 4.8: the reset changes the opcode and clears the arguments, keeping the
  value's identity and type (the auxiliary integer starts again from zero);
  \<^verbatim>\<open>ResetControls\<close> clears the control values of the block.
\<close>

definition reset :: "Func \<Rightarrow> vid \<Rightarrow> Op \<Rightarrow> Func" where
  "reset fu v op = updValue fu v (\<lambda>vl. vl\<lparr>Op := op, AuxInt := 0, Args := []\<rparr>)"

definition ResetControls :: "Func \<Rightarrow> bid \<Rightarrow> Func" where
  "ResetControls fu blk = updBlock fu blk (\<lambda>bl. bl\<lparr>Controls := []\<rparr>)"

text \<open>
  The body of the loop over \<^verbatim>\<open>ctrlBlock\<close>, for the constant \<open>k\<close> (\<^verbatim>\<open>lt.val\<close>); the
  counter \<^verbatim>\<open>rewireCnt\<close> is threaded through.
\<close>

definition rewireBlock :: "vid \<Rightarrow> Func \<times> nat \<Rightarrow> bid \<Rightarrow> error + (Func \<times> nat)" where
  "rewireBlock k st blk =
     (let (fu, rewireCnt) = st in
      case Kind (blks fu blk) of
        BlockIf \<Rightarrow>
          (case removeEdge fu blk (sint (AuxInt (vals fu k))) of
             Inl err \<Rightarrow> Inl err
           | Inr f1 \<Rightarrow>
               Inr (ResetControls
                      (updBlock f1 blk (\<lambda>bl. bl\<lparr>Kind := BlockPlain, Likely := BranchUnknown\<rparr>)) blk,
                    Suc rewireCnt))
      | BlockJumpTable \<Rightarrow> Inr (fu, rewireCnt)
      | _ \<Rightarrow> Inl Fatal_should_not_reach)"

fun rewireBlocks :: "vid \<Rightarrow> Func \<times> nat \<Rightarrow> bid list \<Rightarrow> error + (Func \<times> nat)" where
  "rewireBlocks k st [] = Inr st"
| "rewireBlocks k st (blk # bs) =
     (case rewireBlock k st blk of
        Inl err \<Rightarrow> Inl err
      | Inr st' \<Rightarrow> rewireBlocks k st' bs)"

text \<open>
  The body of the loop of \<^verbatim>\<open>replaceConst\<close> for one entry of \<^verbatim>\<open>t.latticeCells\<close>; the state
  is the worklist with the two counters.
\<close>

definition replaceValue :: "worklist \<times> nat \<times> nat \<Rightarrow> vid \<Rightarrow> error + (worklist \<times> nat \<times> nat)" where
  "replaceValue st v =
     (let (t, constCnt, rewireCnt) = st in
      case latticeCells t v of
        None \<Rightarrow> Inr st
      | Some lt \<Rightarrow>
          if tag lt = constant_t \<and> \<not> isConst (vals (fn t) v) then
            (case val lt of
               None \<Rightarrow> Inl NilDereference
             | Some k \<Rightarrow>
                 (let f1 = reset (fn t) v (Op (vals (fn t) k));
                      f2 = updValue f1 v (\<lambda>vl. vl\<lparr>AuxInt := AuxInt (vals f1 k)\<rparr>)
                  in case rewireBlocks k (f2, rewireCnt) (lookupList (defBlock t) v) of
                       Inl err \<Rightarrow> Inl err
                     | Inr (f3, rewireCnt') \<Rightarrow> Inr (t\<lparr>fn := f3\<rparr>, Suc constCnt, rewireCnt')))
          else Inr st)"

text \<open>
  \<^verbatim>\<open>replaceConst\<close> ranges over the map \<^verbatim>\<open>t.latticeCells\<close>; the order \<open>order\<close> of its keys
  is a parameter, as for the verification of the def-use chains.
\<close>

fun replaceLoop :: "worklist \<times> nat \<times> nat \<Rightarrow> vid list \<Rightarrow> error + (worklist \<times> nat \<times> nat)" where
  "replaceLoop st [] = Inr st"
| "replaceLoop st (v # vs) =
     (case replaceValue st v of
        Inl err \<Rightarrow> Inl err
      | Inr st' \<Rightarrow> replaceLoop st' vs)"

definition replaceConst :: "vid list \<Rightarrow> worklist \<Rightarrow> error + (worklist \<times> nat \<times> nat)" where
  "replaceConst order t = replaceLoop (t, 0, 0) order"

subsection \<open>The pass\<close>

definition initial :: "Func \<Rightarrow> worklist" where
  "initial fu =
     \<lparr>fn = fu, edges = [(Entry fu, Entry fu)], uses = [], visited = {},
      latticeCells = Map.empty, defUse = Map.empty, defBlock = Map.empty\<rparr>"

text \<open>
  \<^verbatim>\<open>sccp\<close>: \<open>ks\<close> and \<open>order\<close> are the orders of the two map ranges, \<open>fuel\<close> bounds the
  loop; \<open>None\<close> when the fuel does not suffice.
\<close>

definition sccp :: "rewriter \<Rightarrow> vid list \<Rightarrow> vid list \<Rightarrow> nat \<Rightarrow> Func \<Rightarrow> (error + Func) option" where
  "sccp rw ks order fuel fu =
     (case buildDefUses ks (initial fu) of
        Inl err \<Rightarrow> Some (Inl err)
      | Inr t1 \<Rightarrow>
          (case sccp_loop rw fuel t1 of
             None \<Rightarrow> None
           | Some (Inl err) \<Rightarrow> Some (Inl err)
           | Some (Inr t2) \<Rightarrow>
               (case replaceConst order t2 of
                  Inl err \<Rightarrow> Some (Inl err)
                | Inr (t3, constCnt, rewireCnt) \<Rightarrow> Some (Inr (fn t3)))))"

subsection \<open>Running the loop step by step\<close>

text \<open>The state after \<open>n\<close> iterations of the loop of \<^verbatim>\<open>sccp\<close>.\<close>

fun sccp_steps :: "rewriter \<Rightarrow> nat \<Rightarrow> worklist \<Rightarrow> error + worklist" where
  "sccp_steps rw 0 t = Inr t"
| "sccp_steps rw (Suc n) t =
     (case sccp_step rw t of
        Inl e \<Rightarrow> Inl e
      | Inr t' \<Rightarrow> sccp_steps rw n t')"

subsection \<open>Example functions\<close>

text \<open>
  Modelled from the spec: the rules of the generic rewriter are not in the source files at
  hand. Section 8, scenario S1: \<^verbatim>\<open>Add32\<close> of \<^verbatim>\<open>Const32 5\<close> and \<^verbatim>\<open>Const32 7\<close> is folded
  to \<^verbatim>\<open>Const32 12\<close>. This rewriter has that one rule: an \<^verbatim>\<open>Add32\<close> of two \<^verbatim>\<open>Const32\<close>
  becomes the \<^verbatim>\<open>Const32\<close> of their 32-bit sum, sign-extended.
\<close>

definition rewriteAdd32 :: rewriter where
  "rewriteAdd32 fu v =
     (let vl = vals fu v in
      case Args vl of
        [x, y] \<Rightarrow>
          if Op vl = OpAdd32 \<and> Op (vals fu x) = OpConst32 \<and> Op (vals fu y) = OpConst32
          then (updValue (reset fu v OpConst32) v
                  (\<lambda>w. w\<lparr>AuxInt := scast (ucast (AuxInt (vals fu x) + AuxInt (vals fu y)) :: 32 word)\<rparr>),
                True)
          else (fu, False)
      | _ \<Rightarrow> (fu, False))"

definition mkValue :: "Op \<Rightarrow> 64 word \<Rightarrow> vid list \<Rightarrow> bid \<Rightarrow> 32 word \<Rightarrow> Value" where
  "mkValue op aux as blk us =
     \<lparr>Op = op, Type = 0, AuxInt = aux, Args = as, Block = blk, Pos = 0, Uses = us\<rparr>"

definition mkBlock :: "BlockKind \<Rightarrow> Edge list \<Rightarrow> Edge list \<Rightarrow> vid list \<Rightarrow> vid list \<Rightarrow> Block" where
  "mkBlock k ss ps cs vs =
     \<lparr>Kind = k, Succs = ss, Preds = ps, Controls = cs, Values = vs, Likely = BranchUnknown\<rparr>"

text \<open>
  A diamond. Block 0 (entry, If on the non-constant \<open>v4\<close>): \<open>v1 = Const32 1\<close>,
  \<open>v2 = Const32 2\<close>, \<open>v3 = Add32 v1 v2\<close>; block 1: \<open>v5 = Copy v3\<close>; block 2: empty;
  block 3 (Ret): \<open>v6 = Phi v5 v3\<close>. The function lists its blocks as 0, 3, 1, 2.
\<close>

definition diamondFunc :: Func where
  "diamondFunc =
    \<lparr>Blocks = [0, 3, 1, 2], Entry = 0,
     vals = (\<lambda>v. mkValue (OpOther 0) 0 [] 0 0)
       (1 := mkValue OpConst32 1 [] 0 1,
        2 := mkValue OpConst32 2 [] 0 1,
        3 := mkValue OpAdd32 0 [1, 2] 0 2,
        4 := mkValue (OpOther 0) 0 [] 0 1,
        5 := mkValue OpCopy 0 [3] 1 1,
        6 := mkValue OpPhi 0 [5, 3] 3 0),
     blks = (\<lambda>b. mkBlock BlockInvalid [] [] [] [])
       (0 := mkBlock BlockIf [\<lparr>eb = 1, ei = 0\<rparr>, \<lparr>eb = 2, ei = 0\<rparr>] [] [4] [1, 2, 3, 4],
        1 := mkBlock BlockPlain [\<lparr>eb = 3, ei = 0\<rparr>] [\<lparr>eb = 0, ei = 0\<rparr>] [] [5],
        2 := mkBlock BlockPlain [\<lparr>eb = 3, ei = 1\<rparr>] [\<lparr>eb = 0, ei = 1\<rparr>] [] [],
        3 := mkBlock BlockRet [] [\<lparr>eb = 1, ei = 0\<rparr>, \<lparr>eb = 2, ei = 0\<rparr>] [] [6]),
     nextVid = 7\<rparr>"

text \<open>
  Scenario S5 of the spec, in one block: \<open>v2 = Const32 10\<close>, \<open>v3 = Const32 0\<close>,
  \<open>v4 = Div32 v2 v3\<close>.
\<close>

definition divFunc :: Func where
  "divFunc =
    \<lparr>Blocks = [0], Entry = 0,
     vals = (\<lambda>v. mkValue (OpOther 0) 0 [] 0 0)
       (2 := mkValue OpConst32 10 [] 0 1,
        3 := mkValue OpConst32 0 [] 0 1,
        4 := mkValue OpDiv32 0 [2, 3] 0 0),
     blks = (\<lambda>b. mkBlock BlockInvalid [] [] [] [])
       (0 := mkBlock BlockRet [] [] [] [2, 3, 4]),
     nextVid = 5\<rparr>"

text \<open>
  A branch on a constant. Block 0 (entry, If on \<open>v3\<close>): \<open>v2 = ConstBool true\<close>,
  \<open>v3 = Copy v2\<close>, \<open>v4 = Const32 5\<close>; block 1 (Plain, the then-branch): \<open>v5\<close>, not a
  constant; block 2 (Ret), reached from block 0 (the else-branch) and from block 1:
  \<open>v6 = Phi v4 v5\<close>.
\<close>

definition branchFunc :: Func where
  "branchFunc =
    \<lparr>Blocks = [0, 1, 2], Entry = 0,
     vals = (\<lambda>v. mkValue (OpOther 0) 0 [] 0 0)
       (2 := mkValue OpConstBool 1 [] 0 1,
        3 := mkValue OpCopy 0 [2] 0 1,
        4 := mkValue OpConst32 5 [] 0 1,
        5 := mkValue (OpOther 0) 0 [] 1 1,
        6 := mkValue OpPhi 0 [4, 5] 2 0),
     blks = (\<lambda>b. mkBlock BlockInvalid [] [] [] [])
       (0 := mkBlock BlockIf [\<lparr>eb = 1, ei = 0\<rparr>, \<lparr>eb = 2, ei = 0\<rparr>] [] [3] [2, 3, 4],
        1 := mkBlock BlockPlain [\<lparr>eb = 2, ei = 1\<rparr>] [\<lparr>eb = 0, ei = 0\<rparr>] [] [5],
        2 := mkBlock BlockRet [] [\<lparr>eb = 0, ei = 1\<rparr>, \<lparr>eb = 1, ei = 0\<rparr>] [] [6]),
     nextVid = 7\<rparr>"

text \<open>The same function with a stale use count on \<open>v3\<close>, which only controls block 0.\<close>

definition staleFunc :: Func where
  "staleFunc = updValue branchFunc 3 (\<lambda>vl. vl\<lparr>Uses := 7\<rparr>)"

subsection \<open>Relations between the function before and after the rewriting\<close>

text \<open>
  What a value keeps: opcode, \<open>AuxInt\<close>, type, block, position and use count; its
  arguments, or, for a phi, a subsequence of them.
\<close>

definition valFrame :: "Func \<Rightarrow> Func \<Rightarrow> vid \<Rightarrow> bool" where
  "valFrame fu fu' x \<longleftrightarrow>
     Op (vals fu' x) = Op (vals fu x) \<and> AuxInt (vals fu' x) = AuxInt (vals fu x)
     \<and> Type (vals fu' x) = Type (vals fu x) \<and> Block (vals fu' x) = Block (vals fu x)
     \<and> Pos (vals fu' x) = Pos (vals fu x) \<and> Uses (vals fu' x) = Uses (vals fu x)
     \<and> subseq (Args (vals fu' x)) (Args (vals fu x))
     \<and> (Op (vals fu x) \<noteq> OpPhi \<longrightarrow> Args (vals fu' x) = Args (vals fu x))"

text \<open>What a block keeps: kind, controls, likelihood, values and the targets of its successors.\<close>

definition blkFrame :: "Func \<Rightarrow> Func \<Rightarrow> bid \<Rightarrow> bool" where
  "blkFrame fu fu' y \<longleftrightarrow>
     Kind (blks fu' y) = Kind (blks fu y) \<and> Controls (blks fu' y) = Controls (blks fu y)
     \<and> Likely (blks fu' y) = Likely (blks fu y) \<and> Values (blks fu' y) = Values (blks fu y)
     \<and> map eb (Succs (blks fu' y)) = map eb (Succs (blks fu y))"

text \<open>The same values and the same blocks up to the back indices of the edges.\<close>

definition sameShape :: "Func \<Rightarrow> Func \<Rightarrow> bool" where
  "sameShape fu fu' \<longleftrightarrow>
     vals fu' = vals fu
     \<and> (\<forall>y. blkFrame fu fu' y \<and> map eb (Preds (blks fu' y)) = map eb (Preds (blks fu y)))"

text \<open>The fixed point of the loop on \<open>branchFunc\<close>.\<close>

definition branchFixpoint :: worklist where
  "branchFixpoint =
     projr (the (sccp_loop rewriteAdd32 20 (projr (buildDefUses [2, 4, 5] (initial branchFunc)))))"

subsection \<open>Relations used to state the fixed point\<close>

text \<open>
  The cells that the spec lets a phi meet: those of the arguments whose predecessor edge
  is visited, in the order of the arguments (section 4.5). The arguments, the block and
  its predecessors are read from the function \<open>fu\<close>, the cells and the visited edges from
  the worklist.
\<close>

definition visitedArgCells :: "Func \<Rightarrow> worklist \<Rightarrow> vid \<Rightarrow> lattice list" where
  "visitedArgCells fu t v =
     map (\<lambda>(a, p). getLatticeCell t a)
       (filter (\<lambda>(a, p). (eb p, Block (vals fu v)) \<in> visited t)
          (zip (Args (vals fu v)) (Preds (blks fu (Block (vals fu v))))))"

text \<open>
  A rewriter that touches nothing but the value it is given: the blocks, and the opcode,
  arguments and block of every other value, are as before, and no address is freed.
\<close>

definition rewriterLocal :: "rewriter \<Rightarrow> bool" where
  "rewriterLocal rw \<longleftrightarrow>
     (\<forall>g v. blks (fst (rw g v)) = blks g \<and> Blocks (fst (rw g v)) = Blocks g
            \<and> Entry (fst (rw g v)) = Entry g \<and> nextVid g \<le> nextVid (fst (rw g v))
            \<and> (\<forall>x. x \<noteq> v \<longrightarrow> Op (vals (fst (rw g v)) x) = Op (vals g x)
                        \<and> Args (vals (fst (rw g v)) x) = Args (vals g x)
                        \<and> Block (vals (fst (rw g v)) x) = Block (vals g x)))"

text \<open>
  The values listed in the blocks of the function are allocated, and each names the block
  that lists it.
\<close>

definition wfFunc :: "Func \<Rightarrow> bool" where
  "wfFunc fu \<longleftrightarrow>
     (\<forall>blk\<in>set (Blocks fu). \<forall>v\<in>set (Values (blks fu blk)).
        v < nextVid fu \<and> Block (vals fu v) = blk)"

definition isPhiOf :: "Func \<Rightarrow> vid \<Rightarrow> bool" where
  "isPhiOf fu v \<longleftrightarrow>
     (\<exists>blk\<in>set (Blocks fu). v \<in> set (Values (blks fu blk))) \<and> Op (vals fu v) = OpPhi"

text \<open>The function \<open>g\<close> is \<open>fu\<close> with more values allocated.\<close>

definition sameStruct :: "Func \<Rightarrow> Func \<Rightarrow> bool" where
  "sameStruct fu g \<longleftrightarrow>
     blks g = blks fu \<and> Blocks g = Blocks fu \<and> Entry g = Entry fu \<and> nextVid fu \<le> nextVid g
     \<and> (\<forall>x. x < nextVid fu \<longrightarrow> Op (vals g x) = Op (vals fu x) \<and> Args (vals g x) = Args (vals fu x)
                  \<and> Block (vals g x) = Block (vals fu x))"

text \<open>Every use of a value by a value of the function is in the def-use chain.\<close>

definition duComplete :: "Func \<Rightarrow> worklist \<Rightarrow> bool" where
  "duComplete fu t \<longleftrightarrow>
     (\<forall>blk\<in>set (Blocks fu). \<forall>w\<in>set (Values (blks fu blk)). \<forall>a\<in>set (Args (vals fu w)).
        w \<in> set (lookupList (defUse t) a))"

text \<open>
  The phis of the function are pending (in the value worklist, or in the set \<open>P\<close> of the
  values about to be visited) or hold the meet of their visited arguments.
\<close>

definition phisOK :: "Func \<Rightarrow> worklist \<Rightarrow> vid set \<Rightarrow> bool" where
  "phisOK fu t P \<longleftrightarrow>
     (\<forall>v. isPhiOf fu v \<longrightarrow>
        v \<in> set (uses t) \<or> v \<in> P \<or> getLatticeCell t v = meet (visitedArgCells fu t v))"


text \<open>
  A floating-point division by negative zero, in one block: \<open>v2 = Const64F 10.0\<close>,
  \<open>v3 = Const64F -0.0\<close>, \<open>v4 = Div64F v2 v3\<close>. The \<open>AuxInt\<close> of a \<^verbatim>\<open>Const64F\<close> holds the
  bits of the number: \<open>0x4024000000000000\<close> for 10.0 and \<open>0x8000000000000000\<close> for -0.0.
\<close>

definition negZeroFunc :: Func where
  "negZeroFunc =
    \<lparr>Blocks = [0], Entry = 0,
     vals = (\<lambda>v. mkValue (OpOther 0) 0 [] 0 0)
       (2 := mkValue OpConst64F 0x4024000000000000 [] 0 1,
        3 := mkValue OpConst64F 0x8000000000000000 [] 0 1,
        4 := mkValue OpDiv64F 0 [2, 3] 0 0),
     blks = (\<lambda>b. mkBlock BlockInvalid [] [] [] [])
       (0 := mkBlock BlockRet [] [] [] [2, 3, 4]),
     nextVid = 5\<rparr>"

section \<open>Properties\<close>

subsection \<open>Meet\<close>

lemma meet_loop_const:
  "tag lt = constant_t \<Longrightarrow>
   meet_loop lt xs =
     (if (\<exists>x\<in>set xs. tag x = bottom_t \<or> (tag x = constant_t \<and> val x \<noteq> val lt))
      then \<lparr>tag = bottom_t, val = None\<rparr> else lt)"
proof (induction xs)
  case Nil
  show ?case by simp
next
  case (Cons t ts)
  then show ?case by (cases "tag t") (simp_all, blast)
qed

lemma meet_loop_top_bottom:
  "\<exists>x\<in>set xs. tag x = bottom_t \<Longrightarrow>
   meet_loop \<lparr>tag = top_t, val = None\<rparr> xs = \<lparr>tag = bottom_t, val = None\<rparr>"
proof (induction xs)
  case Nil
  then show ?case by simp
next
  case (Cons t ts)
  show ?case
  proof (cases "tag t")
    case top_t
    with Cons show ?thesis by simp
  next
    case constant_t
    with Cons.prems show ?thesis by (simp add: meet_loop_const) blast
  next
    case bottom_t
    then show ?thesis by simp
  qed
qed

lemma meet_loop_top_all_top:
  "\<forall>x\<in>set xs. tag x = top_t \<Longrightarrow>
   meet_loop \<lparr>tag = top_t, val = None\<rparr> xs = \<lparr>tag = top_t, val = None\<rparr>"
  by (induction xs) simp_all

lemma meet_loop_top_conflict:
  "x \<in> set xs \<Longrightarrow> y \<in> set xs \<Longrightarrow> tag x = constant_t \<Longrightarrow> tag y = constant_t \<Longrightarrow>
   val x \<noteq> val y \<Longrightarrow>
   meet_loop \<lparr>tag = top_t, val = None\<rparr> xs = \<lparr>tag = bottom_t, val = None\<rparr>"
proof (induction xs)
  case Nil
  then show ?case by simp
next
  case (Cons t ts)
  show ?case
  proof (cases "tag t")
    case top_t
    with Cons.prems have "x \<in> set ts" "y \<in> set ts" by auto
    with Cons top_t show ?thesis by simp
  next
    case constant_t
    from Cons.prems have "\<exists>z\<in>set ts. tag z = constant_t \<and> val z \<noteq> val t"
      by (metis set_ConsD)
    with constant_t show ?thesis by (simp add: meet_loop_const) blast
  next
    case bottom_t
    then show ?thesis by simp
  qed
qed

lemma meet_loop_top_agree:
  assumes "x \<in> set xs" and "tag x = constant_t" and "\<forall>y\<in>set xs. tag y \<noteq> bottom_t"
    and "\<forall>y\<in>set xs. tag y = constant_t \<longrightarrow> val y = val x"
  shows "meet_loop \<lparr>tag = top_t, val = None\<rparr> xs = \<lparr>tag = constant_t, val = val x\<rparr>"
  using assms
proof (induction xs)
  case Nil
  then show ?case by simp
next
  case (Cons t ts)
  show ?case
  proof (cases "tag t")
    case top_t
    with Cons.prems have "x \<in> set ts" by auto
    moreover from Cons.prems have "\<forall>y\<in>set ts. tag y \<noteq> bottom_t"
      and "\<forall>y\<in>set ts. tag y = constant_t \<longrightarrow> val y = val x"
      by (meson list.set_intros(2))+
    ultimately have "meet_loop \<lparr>tag = top_t, val = None\<rparr> ts = \<lparr>tag = constant_t, val = val x\<rparr>"
      using Cons.IH Cons.prems(2) by blast
    with top_t show ?thesis by simp
  next
    case constant_t
    have vt: "val t = val x"
      using Cons.prems(4) constant_t by (metis list.set_intros(1))
    have "\<not> (\<exists>z\<in>set ts. tag z = bottom_t \<or> (tag z = constant_t \<and> val z \<noteq> val x))"
      using Cons.prems(3,4) by (meson list.set_intros(2))
    then have "meet_loop \<lparr>tag = constant_t, val = val x\<rparr> ts = \<lparr>tag = constant_t, val = val x\<rparr>"
      by (subst meet_loop_const) simp_all
    with constant_t vt show ?thesis by simp
  next
    case bottom_t
    with Cons.prems(3) show ?thesis by simp
  qed
qed


lemma meet_set: "set xs = set ys \<Longrightarrow> meet xs = meet ys"
proof -
  assume eq: "set xs = set ys"
  let ?T = "\<lparr>tag = top_t, val = None\<rparr>"
  have nontop: "tag x = constant_t" if "tag x \<noteq> top_t" "tag x \<noteq> bottom_t" for x :: lattice
    using that by (cases "tag x") simp_all
  consider (bot) "\<exists>x\<in>set xs. tag x = bottom_t"
    | (conflict) "\<exists>x\<in>set xs. \<exists>y\<in>set xs. tag x = constant_t \<and> tag y = constant_t \<and> val x \<noteq> val y"
    | (alltop) "\<forall>x\<in>set xs. tag x = top_t"
    | (agree) x where "x \<in> set xs" "tag x = constant_t" "\<forall>y\<in>set xs. tag y \<noteq> bottom_t"
        "\<forall>y\<in>set xs. tag y = constant_t \<longrightarrow> val y = val x"
  proof (cases "\<exists>x\<in>set xs. tag x = bottom_t")
    case True
    then show ?thesis by (rule bot)
  next
    case nb: False
    show ?thesis
    proof (cases "\<forall>x\<in>set xs. tag x = top_t")
      case True
      then show ?thesis by (rule alltop)
    next
      case False
      then obtain x where x: "x \<in> set xs" "tag x \<noteq> top_t" by blast
      with nb have xc: "tag x = constant_t" by (intro nontop) blast+
      show ?thesis
      proof (cases "\<forall>y\<in>set xs. tag y = constant_t \<longrightarrow> val y = val x")
        case True
        with x(1) xc nb show ?thesis by (intro agree [of x]) blast+
      next
        case False
        with x(1) xc show ?thesis by (intro conflict) blast
      qed
    qed
  qed
  then show ?thesis
  proof cases
    case bot
    then have "meet_loop ?T xs = \<lparr>tag = bottom_t, val = None\<rparr>"
      by (rule meet_loop_top_bottom)
    moreover from bot eq have "meet_loop ?T ys = \<lparr>tag = bottom_t, val = None\<rparr>"
      by (intro meet_loop_top_bottom) simp
    ultimately show ?thesis by (simp add: meet_def)
  next
    case conflict
    then obtain x y where xy: "x \<in> set xs" "y \<in> set xs" "tag x = constant_t" "tag y = constant_t"
      "val x \<noteq> val y" by blast
    then have "meet_loop ?T xs = \<lparr>tag = bottom_t, val = None\<rparr>"
      by (rule meet_loop_top_conflict)
    moreover from xy eq have "x \<in> set ys" "y \<in> set ys" by simp_all
    then have "meet_loop ?T ys = \<lparr>tag = bottom_t, val = None\<rparr>"
      using xy(3-5) by (rule meet_loop_top_conflict)
    ultimately show ?thesis by (simp add: meet_def)
  next
    case alltop
    then have "meet_loop ?T xs = ?T" by (rule meet_loop_top_all_top)
    moreover from alltop eq have "meet_loop ?T ys = ?T"
      by (intro meet_loop_top_all_top) simp
    ultimately show ?thesis by (simp add: meet_def)
  next
    case agree
    then have "meet_loop ?T xs = \<lparr>tag = constant_t, val = val x\<rparr>"
      by (intro meet_loop_top_agree)
    moreover have "meet_loop ?T ys = \<lparr>tag = constant_t, val = val x\<rparr>"
    proof (rule meet_loop_top_agree)
      show "x \<in> set ys" using agree(1) eq by blast
      show "tag x = constant_t" by (rule agree(2))
      show "\<forall>y\<in>set ys. tag y \<noteq> bottom_t" using agree(3) eq by blast
      show "\<forall>y\<in>set ys. tag y = constant_t \<longrightarrow> val y = val x" using agree(4) eq by blast
    qed
    ultimately show ?thesis by (simp add: meet_def)
  qed
qed

lemma meet_loop_drop_top:
  "tag c = top_t \<Longrightarrow> meet_loop lt (xs @ c # ys) = meet_loop lt (xs @ ys)"
  by (induction xs arbitrary: lt) simp_all

lemma meet_two_const:
  "meet [\<lparr>tag = constant_t, val = p\<rparr>, \<lparr>tag = constant_t, val = q\<rparr>] =
     (if p = q then \<lparr>tag = constant_t, val = p\<rparr> else \<lparr>tag = bottom_t, val = None\<rparr>)"
  by (simp add: meet_def)

lemma meet_assoc: "meet [meet [x, y], z] = meet [x, meet [y, z]]"
  by (cases "tag x"; cases "tag y"; cases "tag z") (simp_all add: meet_def)


text \<open>
  C4. \<^verbatim>\<open>meet\<close> of the empty list is Top; a cell tagged Top anywhere in the list
  never changes the result; a cell tagged Bottom makes the result Bottom; two Const cells
  meet to that Const when their value pointers are equal and to Bottom otherwise; the result
  depends only on the set of cells in the list (so it is invariant under permutation and
  duplication), and the induced binary meet is commutative, associative and idempotent.
\<close>

theorem meet_algebra:
  "meet [] = \<lparr>tag = top_t, val = None\<rparr>
   \<and> (\<forall>c xs ys. tag c = top_t \<longrightarrow> meet (xs @ c # ys) = meet (xs @ ys))
   \<and> (\<forall>xs. (\<exists>x\<in>set xs. tag x = bottom_t) \<longrightarrow> meet xs = \<lparr>tag = bottom_t, val = None\<rparr>)
   \<and> (\<forall>p q. meet [\<lparr>tag = constant_t, val = p\<rparr>, \<lparr>tag = constant_t, val = q\<rparr>] =
          (if p = q then \<lparr>tag = constant_t, val = p\<rparr> else \<lparr>tag = bottom_t, val = None\<rparr>))
   \<and> (\<forall>xs ys. set xs = set ys \<longrightarrow> meet xs = meet ys)
   \<and> (\<forall>x y. meet [x, y] = meet [y, x])
   \<and> (\<forall>x y z. meet [meet [x, y], z] = meet [x, meet [y, z]])
   \<and> (\<forall>x. meet [x, x] = meet [x])"
proof (intro conjI allI impI)
  show "meet [] = \<lparr>tag = top_t, val = None\<rparr>" by (simp add: meet_def)
next
  fix c :: lattice and xs ys :: "lattice list" assume "tag c = top_t"
  then show "meet (xs @ c # ys) = meet (xs @ ys)"
    unfolding meet_def by (rule meet_loop_drop_top)
next
  fix xs :: "lattice list" assume "\<exists>x\<in>set xs. tag x = bottom_t"
  then show "meet xs = \<lparr>tag = bottom_t, val = None\<rparr>"
    unfolding meet_def by (rule meet_loop_top_bottom)
next
  fix p q
  show "meet [\<lparr>tag = constant_t, val = p\<rparr>, \<lparr>tag = constant_t, val = q\<rparr>] =
          (if p = q then \<lparr>tag = constant_t, val = p\<rparr> else \<lparr>tag = bottom_t, val = None\<rparr>)"
    by (rule meet_two_const)
next
  fix xs ys :: "lattice list" assume "set xs = set ys"
  then show "meet xs = meet ys" by (rule meet_set)
next
  fix x y :: lattice
  show "meet [x, y] = meet [y, x]" by (rule meet_set) auto
next
  fix x y z :: lattice
  show "meet [meet [x, y], z] = meet [x, meet [y, z]]" by (rule meet_assoc)
next
  fix x :: lattice
  show "meet [x, x] = meet [x]" by (rule meet_set) simp
qed

theorem meet_algebra_witness:
  "meet [\<lparr>tag = constant_t, val = Some 1\<rparr>, \<lparr>tag = top_t, val = None\<rparr>,
         \<lparr>tag = constant_t, val = Some 1\<rparr>] = \<lparr>tag = constant_t, val = Some 1\<rparr>
   \<and> meet [\<lparr>tag = constant_t, val = Some 1\<rparr>, \<lparr>tag = bottom_t, val = None\<rparr>]
       = \<lparr>tag = bottom_t, val = None\<rparr>
   \<and> meet [\<lparr>tag = constant_t, val = Some 2\<rparr>, \<lparr>tag = constant_t, val = Some 1\<rparr>,
           \<lparr>tag = constant_t, val = Some 2\<rparr>]
       = meet [\<lparr>tag = constant_t, val = Some 1\<rparr>, \<lparr>tag = constant_t, val = Some 2\<rparr>]"
proof -
  let ?c1 = "\<lparr>tag = constant_t, val = Some (1::nat)\<rparr>"
  let ?c2 = "\<lparr>tag = constant_t, val = Some (2::nat)\<rparr>"
  let ?T = "\<lparr>tag = top_t, val = None :: vid option\<rparr>"
  let ?B = "\<lparr>tag = bottom_t, val = None :: vid option\<rparr>"
  have "tag ?T = top_t" by simp
  with meet_algebra have "meet ([?c1] @ ?T # [?c1]) = meet ([?c1] @ [?c1])" by blast
  then have a: "meet [?c1, ?T, ?c1] = ?c1" by (simp add: meet_def)
  have "\<exists>x\<in>set [?c1, ?B]. tag x = bottom_t" by simp
  with meet_algebra have b: "meet [?c1, ?B] = ?B" by blast
  have "set [?c2, ?c1, ?c2] = set [?c1, ?c2]" by auto
  with meet_algebra have c: "meet [?c2, ?c1, ?c2] = meet [?c1, ?c2]" by blast
  from a b c show ?thesis by blast
qed

subsection \<open>Block propagation\<close>

lemma propagate_If: "Kind (blks (fn t) blk) = BlockIf \<Longrightarrow> propagate t blk = propagateCond t blk"
  by (simp add: propagate_def)

text \<open>
  C5. Block propagation on an If block with the single control value \<open>cond\<close>: when the
  cell of \<open>cond\<close> is Bottom, an edge to every successor is appended to the edge worklist
  (both edges of a block with two successors); when it is Const(k), exactly one edge is
  appended, to the successor at index \<open>1 - k.AuxInt\<close> (successor 1 for \<open>AuxInt = 0\<close>,
  successor 0 for \<open>AuxInt = 1\<close>); when it is Top, nothing is appended.
\<close>

theorem propagate_If_block:
  assumes "Kind (blks (fn t) blk) = BlockIf" and "Controls (blks (fn t) blk) = [cond]"
  shows "(tag (getLatticeCell t cond) = bottom_t \<longrightarrow>
            propagate t blk =
              Inr (t\<lparr>edges := edges t @ map (\<lambda>succ. (blk, eb succ)) (Succs (blks (fn t) blk))\<rparr>))
       \<and> (tag (getLatticeCell t cond) = bottom_t \<and> Succs (blks (fn t) blk) = [s0, s1] \<longrightarrow>
            propagate t blk = Inr (t\<lparr>edges := edges t @ [(blk, eb s0), (blk, eb s1)]\<rparr>))
       \<and> (getLatticeCell t cond = \<lparr>tag = constant_t, val = Some k\<rparr>
            \<and> 0 \<le> sint (1 - AuxInt (vals (fn t) k))
            \<and> sint (1 - AuxInt (vals (fn t) k)) < int (length (Succs (blks (fn t) blk))) \<longrightarrow>
            propagate t blk =
              Inr (t\<lparr>edges := edges t @
                    [(blk, eb (Succs (blks (fn t) blk) ! nat (sint (1 - AuxInt (vals (fn t) k)))))]\<rparr>))
       \<and> (getLatticeCell t cond = \<lparr>tag = constant_t, val = Some k\<rparr>
            \<and> AuxInt (vals (fn t) k) = 0 \<and> Succs (blks (fn t) blk) = [s0, s1] \<longrightarrow>
            propagate t blk = Inr (t\<lparr>edges := edges t @ [(blk, eb s1)]\<rparr>))
       \<and> (getLatticeCell t cond = \<lparr>tag = constant_t, val = Some k\<rparr>
            \<and> AuxInt (vals (fn t) k) = 1 \<and> Succs (blks (fn t) blk) = [s0, s1] \<longrightarrow>
            propagate t blk = Inr (t\<lparr>edges := edges t @ [(blk, eb s0)]\<rparr>))
       \<and> (tag (getLatticeCell t cond) = top_t \<longrightarrow> propagate t blk = Inr t)"
proof -
  have p: "propagate t blk = propagateCond t blk"
    using assms(1) by (rule propagate_If)
  have bot: "propagateCond t blk =
      Inr (t\<lparr>edges := edges t @ map (\<lambda>succ. (blk, eb succ)) (Succs (blks (fn t) blk))\<rparr>)"
    if "tag (getLatticeCell t cond) = bottom_t"
    using that assms(2) by (simp add: propagateCond_def addEdges_def)
  have cst: "propagateCond t blk =
      Inr (t\<lparr>edges := edges t @
             [(blk, eb (Succs (blks (fn t) blk) ! nat (sint (1 - AuxInt (vals (fn t) k)))))]\<rparr>)"
    if "getLatticeCell t cond = \<lparr>tag = constant_t, val = Some k\<rparr>"
      and "0 \<le> sint (1 - AuxInt (vals (fn t) k))"
      and "sint (1 - AuxInt (vals (fn t) k)) < int (length (Succs (blks (fn t) blk)))"
    using that assms by (simp add: propagateCond_def addEdges_def succAt_def)
  have tp: "propagateCond t blk = Inr t" if "tag (getLatticeCell t cond) = top_t"
    using that assms(2) by (simp add: propagateCond_def)
  have c0: "propagateCond t blk = Inr (t\<lparr>edges := edges t @ [(blk, eb s1)]\<rparr>)"
    if "getLatticeCell t cond = \<lparr>tag = constant_t, val = Some k\<rparr>"
      and "AuxInt (vals (fn t) k) = 0" and "Succs (blks (fn t) blk) = [s0, s1]"
    using cst [OF that(1)] that(2,3) by simp
  have c1: "propagateCond t blk = Inr (t\<lparr>edges := edges t @ [(blk, eb s0)]\<rparr>)"
    if "getLatticeCell t cond = \<lparr>tag = constant_t, val = Some k\<rparr>"
      and "AuxInt (vals (fn t) k) = 1" and "Succs (blks (fn t) blk) = [s0, s1]"
    using cst [OF that(1)] that(2,3) by simp
  have bot2: "propagateCond t blk = Inr (t\<lparr>edges := edges t @ [(blk, eb s0), (blk, eb s1)]\<rparr>)"
    if "tag (getLatticeCell t cond) = bottom_t" and "Succs (blks (fn t) blk) = [s0, s1]"
    using bot [OF that(1)] that(2) by simp
  show ?thesis
    unfolding p using bot bot2 cst c0 c1 tp by blast
qed

lemma diamond_block0:
  "blks diamondFunc 0 =
     mkBlock BlockIf [\<lparr>eb = 1, ei = 0\<rparr>, \<lparr>eb = 2, ei = 0\<rparr>] [] [4] [1, 2, 3, 4]"
  by (simp add: diamondFunc_def)

theorem propagate_If_block_witness:
  "propagate (setCell (initial diamondFunc) 4 \<lparr>tag = bottom_t, val = None\<rparr>) 0 =
     Inr ((setCell (initial diamondFunc) 4 \<lparr>tag = bottom_t, val = None\<rparr>)
            \<lparr>edges := [(0, 0), (0, 1), (0, 2)]\<rparr>)
   \<and> propagate (setCell (initial diamondFunc) 4 \<lparr>tag = constant_t, val = Some 1\<rparr>) 0 =
     Inr ((setCell (initial diamondFunc) 4 \<lparr>tag = constant_t, val = Some 1\<rparr>)
            \<lparr>edges := [(0, 0), (0, 1)]\<rparr>)
   \<and> propagate (initial diamondFunc) 0 = Inr (initial diamondFunc)"
proof -
  let ?s0 = "\<lparr>eb = 1, ei = 0\<rparr>" and ?s1 = "\<lparr>eb = 2, ei = 0\<rparr>"
  let ?B = "\<lparr>tag = bottom_t, val = None\<rparr>" and ?C = "\<lparr>tag = constant_t, val = Some (1::nat)\<rparr>"
  have fn: "fn (setCell (initial diamondFunc) 4 c) = diamondFunc" "fn (initial diamondFunc) = diamondFunc" for c
    by (simp_all add: setCell_def initial_def)
  have kind: "Kind (blks diamondFunc 0) = BlockIf" and ctl: "Controls (blks diamondFunc 0) = [4]"
    and succs: "Succs (blks diamondFunc 0) = [?s0, ?s1]"
    by (simp_all add: diamond_block0 mkBlock_def)
  have aux: "AuxInt (vals diamondFunc 1) = 1"
    by (simp add: diamondFunc_def mkValue_def)
  have cellB: "getLatticeCell (setCell (initial diamondFunc) 4 ?B) 4 = ?B"
    and cellC: "getLatticeCell (setCell (initial diamondFunc) 4 ?C) 4 = ?C"
    and cellT: "tag (getLatticeCell (initial diamondFunc) 4) = top_t"
    by (simp_all add: getLatticeCell_def setCell_def initial_def)
  have edges: "edges (setCell (initial diamondFunc) 4 c) = [(0, 0)]" for c
    by (simp add: setCell_def initial_def diamondFunc_def)
  have a: "propagate (setCell (initial diamondFunc) 4 ?B) 0 =
      Inr ((setCell (initial diamondFunc) 4 ?B)\<lparr>edges := [(0, 0), (0, 1), (0, 2)]\<rparr>)"
    using propagate_If_block [of "setCell (initial diamondFunc) 4 ?B" 0 4 ?s0 ?s1 1]
    by (simp add: fn kind ctl succs cellB edges)
  have b: "propagate (setCell (initial diamondFunc) 4 ?C) 0 =
      Inr ((setCell (initial diamondFunc) 4 ?C)\<lparr>edges := [(0, 0), (0, 1)]\<rparr>)"
    using propagate_If_block [of "setCell (initial diamondFunc) 4 ?C" 0 4 ?s0 ?s1 1]
    by (simp add: fn kind ctl succs cellC [unfolded One_nat_def] edges aux [unfolded One_nat_def])
  have c: "propagate (initial diamondFunc) 0 = Inr (initial diamondFunc)"
    using propagate_If_block [of "initial diamondFunc" 0 4 ?s0 ?s1 1]
    by (simp add: fn kind ctl cellT)
  from a b c show ?thesis by blast
qed

subsection \<open>Frame of propagation\<close>

lemma edges_triv: "\<exists>es. t = t\<lparr>edges := edges t @ es\<rparr>"
  by (rule exI [of _ "[]"]) simp

lemma addEdges_frame: "\<exists>es. addEdges t blk ss = t\<lparr>edges := edges t @ es\<rparr>"
  by (auto simp: addEdges_def)

lemma propagateCond_frame:
  assumes "propagateCond t blk = Inr t'"
  shows "\<exists>es. t' = t\<lparr>edges := edges t @ es\<rparr>"
  using assms unfolding propagateCond_def Let_def
  by (auto split: list.splits if_splits option.splits sum.splits
           simp: addEdges_def edges_triv)

lemma propagate_frame:
  assumes "propagate t blk = Inr t'"
  shows "\<exists>es. t' = t\<lparr>edges := edges t @ es\<rparr>"
proof -
  note triv = edges_triv [of t']
  show ?thesis
  proof (cases "Kind (blks (fn t) blk)")
    case BlockPlain
    with assms show ?thesis
      by (auto simp: propagate_def addEdges_def split: sum.splits)
  next
    case BlockIf
    with assms show ?thesis by (simp add: propagate_def propagateCond_frame)
  next
    case BlockJumpTable
    with assms show ?thesis by (simp add: propagate_def propagateCond_frame)
  next
    case BlockDefer
    with assms show ?thesis by (auto simp: propagate_def addEdges_def)
  next
    case BlockFirst
    with assms show ?thesis
      by (auto simp: propagate_def addEdges_def split: sum.splits)
  next
    case BlockExit
    with assms triv show ?thesis by (auto simp: propagate_def)
  next
    case BlockRet
    with assms triv show ?thesis by (auto simp: propagate_def)
  next
    case BlockRetJmp
    with assms triv show ?thesis by (auto simp: propagate_def)
  next
    case BlockInvalid
    with assms triv show ?thesis by (auto simp: propagate_def)
  next
    case (BlockOther n)
    with assms show ?thesis by (simp add: propagate_def)
  qed
qed

lemma propagate_all_frame:
  "propagate_all t bs = Inr t' \<Longrightarrow> \<exists>es. t' = t\<lparr>edges := edges t @ es\<rparr>"
proof (induction bs arbitrary: t)
  case Nil
  then show ?case by (simp add: edges_triv)
next
  case (Cons blk bs)
  from Cons.prems obtain t1 where t1: "propagate t blk = Inr t1" and r: "propagate_all t1 bs = Inr t'"
    by (auto split: sum.splits)
  from propagate_frame [OF t1] obtain es1 where e1: "t1 = t\<lparr>edges := edges t @ es1\<rparr>" by blast
  from Cons.IH [OF r] obtain es2 where e2: "t' = t1\<lparr>edges := edges t1 @ es2\<rparr>" by blast
  have "t' = t\<lparr>edges := edges t @ (es1 @ es2)\<rparr>"
    by (simp add: e2) (simp add: e1)
  then show ?case by blast
qed

lemma addUses_frame:
  assumes "addUses t v = Inr t'"
  shows "\<exists>es. t' = t\<lparr>uses := uses t @ filter (\<lambda>use. v \<noteq> use) (lookupList (defUse t) v),
                       edges := edges t @ es\<rparr>"
proof -
  from assms propagate_all_frame obtain es where
    "t' = (t\<lparr>uses := uses t @ filter (\<lambda>use. v \<noteq> use) (lookupList (defUse t) v)\<rparr>)
            \<lparr>edges := edges (t\<lparr>uses := uses t @ filter (\<lambda>use. v \<noteq> use) (lookupList (defUse t) v)\<rparr>) @ es\<rparr>"
    unfolding addUses_def by blast
  then show ?thesis by auto
qed

subsection \<open>Division by a constant zero\<close>

lemma isDivOp_isEvalOp: "isDivOp op \<Longrightarrow> isEvalOp op"
  unfolding isDivOp_def isEvalOp_def by blast

lemma isDivOp_not_const: "isDivOp op \<Longrightarrow> \<not> isConstOp op \<and> op \<noteq> OpCopy \<and> op \<noteq> OpPhi"
  unfolding isDivOp_def isConstOp_def by auto

lemma visitValue_body_div_zero:
  assumes "isDivOp (Op (vals (fn t) v))" and "Args (vals (fn t) v) = a0 # a1 # as"
    and "tag (getLatticeCell t a0) = constant_t"
    and "getLatticeCell t a1 = \<lparr>tag = constant_t, val = Some d\<rparr>"
    and "AuxInt (vals (fn t) d) = 0"
  shows "visitValue_body rw t v = Inr (setCell t v worstLt)"
proof -
  have "visitValue_body rw t v = visitEval rw t v"
    using isDivOp_not_const [OF assms(1)] isDivOp_isEvalOp [OF assms(1)]
    by (simp add: visitValue_body_def)
  also have "\<dots> = Inr (setCell t v worstLt)"
    using assms by (simp add: visitEval_def isDivByZero_def)
  finally show ?thesis .
qed

lemma getLatticeCell_setCell: "getLatticeCell (setCell t v c) v = c"
  by (simp add: getLatticeCell_def setCell_def)

text \<open>
  With a divisor whose \<open>AuxInt\<close> is 0 (an integer zero, or the floating-point \<open>+0.0\<close>):
  for a value \<open>v\<close> with a division or modulo opcode whose two argument cells are Const,
  \<^verbatim>\<open>visitValue\<close> installs Bottom for \<open>v\<close> and then only runs the deferred wake-up of
  the uses: the result does not depend on the rewriter, and the function, with its
  allocator, is left as it was.
\<close>

lemma visitValue_div_by_zero:
  assumes "isDivOp (Op (vals (fn t) v))" and "Args (vals (fn t) v) = a0 # a1 # as"
    and "tag (getLatticeCell t a0) = constant_t"
    and "getLatticeCell t a1 = \<lparr>tag = constant_t, val = Some d\<rparr>"
    and "AuxInt (vals (fn t) d) = 0"
  shows "visitValue rw t v =
           (if tag (getLatticeCell t v) \<noteq> bottom_t \<or> val (getLatticeCell t v) \<noteq> None
            then addUses (setCell t v worstLt) v
            else Inr (setCell t v worstLt))
       \<and> (\<forall>rw'. visitValue rw' t v = visitValue rw t v)
       \<and> (\<forall>t'. visitValue rw t v = Inr t' \<longrightarrow>
             getLatticeCell t' v = \<lparr>tag = bottom_t, val = None\<rparr> \<and> fn t' = fn t)"
proof -
  have body: "visitValue_body r t v = Inr (setCell t v worstLt)" for r
    using assms by (rule visitValue_body_div_zero)
  have eq: "visitValue r t v =
           (if tag (getLatticeCell t v) \<noteq> bottom_t \<or> val (getLatticeCell t v) \<noteq> None
            then addUses (setCell t v worstLt) v
            else Inr (setCell t v worstLt))" for r
    by (auto simp add: visitValue_def body getLatticeCell_setCell worstLt_def Let_def)
  have post: "getLatticeCell t' v = \<lparr>tag = bottom_t, val = None\<rparr> \<and> fn t' = fn t"
    if "visitValue rw t v = Inr t'" for t'
  proof (cases "tag (getLatticeCell t v) \<noteq> bottom_t \<or> val (getLatticeCell t v) \<noteq> None")
    case True
    with that eq [of rw] have "addUses (setCell t v worstLt) v = Inr t'" by simp
    from addUses_frame [OF this] obtain es where
      "t' = (setCell t v worstLt)
              \<lparr>uses := uses (setCell t v worstLt) @
                         filter (\<lambda>use. v \<noteq> use) (lookupList (defUse (setCell t v worstLt)) v),
               edges := edges (setCell t v worstLt) @ es\<rparr>" by blast
    then show ?thesis
      by (simp add: getLatticeCell_def setCell_def worstLt_def)
  next
    case False
    with that eq [of rw] have "t' = setCell t v worstLt" by simp
    then show ?thesis
      by (simp add: getLatticeCell_def setCell_def worstLt_def)
  qed
  have indep: "visitValue rw' t v = visitValue rw t v" for rw'
    by (simp only: eq [of rw'] eq [of rw])
  from eq [of rw] indep post show ?thesis by blast
qed

lemma visitValue_div_by_zero_example:
  "visitValue rewriteAdd32
     (setCell (setCell (initial divFunc) 2 \<lparr>tag = constant_t, val = Some 2\<rparr>) 3
        \<lparr>tag = constant_t, val = Some 3\<rparr>) 4 =
   Inr (setCell (setCell (setCell (initial divFunc) 2 \<lparr>tag = constant_t, val = Some 2\<rparr>) 3
        \<lparr>tag = constant_t, val = Some 3\<rparr>) 4 \<lparr>tag = bottom_t, val = None\<rparr>)"
proof -
  let ?t = "setCell (setCell (initial divFunc) 2 \<lparr>tag = constant_t, val = Some 2\<rparr>) 3
        \<lparr>tag = constant_t, val = Some 3\<rparr>"
  have fn: "fn ?t = divFunc" by (simp add: setCell_def initial_def)
  have v4: "vals divFunc 4 = mkValue OpDiv32 0 [2, 3] 0 0"
    and v3: "AuxInt (vals divFunc 3) = 0"
    by (simp_all add: divFunc_def mkValue_def)
  have 1: "isDivOp (Op (vals (fn ?t) 4))" by (simp add: fn v4 mkValue_def isDivOp_def)
  have 2: "Args (vals (fn ?t) 4) = 2 # 3 # []" by (simp add: fn v4 mkValue_def)
  have 3: "tag (getLatticeCell ?t 2) = constant_t" by (simp add: getLatticeCell_def setCell_def)
  have 4: "getLatticeCell ?t 3 = \<lparr>tag = constant_t, val = Some 3\<rparr>"
    by (simp add: getLatticeCell_def setCell_def)
  have 5: "AuxInt (vals (fn ?t) 3) = 0" by (simp add: fn v3)
  have old: "tag (getLatticeCell ?t 4) \<noteq> bottom_t"
    by (simp add: getLatticeCell_def setCell_def initial_def)
  have au: "addUses (setCell ?t 4 worstLt) 4 = Inr (setCell ?t 4 worstLt)"
    by (simp add: addUses_def lookupList_def setCell_def initial_def)
  from visitValue_div_by_zero [OF 1 2 3 4 5, of rewriteAdd32, THEN conjunct1] old au
  show ?thesis by (simp add: worstLt_def)
qed

text \<open>
  C7 fails on the code. In \<open>negZeroFunc\<close> the divisor of \<open>v4 = Div64F v2 v3\<close> is the
  constant \<open>-0.0\<close>, whose \<open>AuxInt\<close> is not 0: \<^verbatim>\<open>isDivByZero\<close> answers false, and the first
  iteration of the loop, which visits \<open>v2\<close>, \<open>v3\<close> and \<open>v4\<close>, invokes the evaluator for
  \<open>v4\<close>: the probe \<open>v5 = Div64F v2 v3\<close> is allocated and handed to the rewriter. With a
  rewriter that folds the probe to a constant, the cell of \<open>v4\<close> is Const, not Bottom.
\<close>

theorem visitValue_div_by_negative_zero:
  "isDivByZero negZeroFunc OpDiv64F (Some 3) = Inr False
   \<and> (case buildDefUses [2, 3] (initial negZeroFunc) of
        Inl e \<Rightarrow> False
      | Inr t \<Rightarrow>
          nextVid (fn t) = 5
          \<and> (case sccp_steps rewriteAdd32 1 t of
                Inl e \<Rightarrow> False
              | Inr t' \<Rightarrow>
                  latticeCells t' 3 = Some \<lparr>tag = constant_t, val = Some 3\<rparr>
                  \<and> nextVid (fn t') = 6
                  \<and> Op (vals (fn t') 5) = OpDiv64F \<and> Args (vals (fn t') 5) = [2, 3])
          \<and> (case sccp_steps (\<lambda>fu v. (reset fu v OpConst64F, True)) 1 t of
                Inl e \<Rightarrow> False
              | Inr t' \<Rightarrow> latticeCells t' 4 = Some \<lparr>tag = constant_t, val = Some 5\<rparr>))"
  by code_simp

subsection \<open>The constant evaluator returns a fresh node\<close>

lemma computeConstValue_result:
  "computeConstValue rw fu vl as = Inr (f', c, m) \<Longrightarrow> c = nextVid fu"
  by (auto simp: computeConstValue_def newValue_def Let_def split: prod.splits if_splits)

text \<open>
  C3 fails on the code. In the diamond, evaluating \<open>v3 = Add32 v1 v2\<close> twice on the
  same two constants gives \<^verbatim>\<open>matched = true\<close> both times, with the same opcode
  \<^verbatim>\<open>Const32\<close> and the same literal 3, but two different nodes (7 and 8); the meet of the
  two Const cells is Bottom.
\<close>

theorem computeConstValue_not_canonical:
  "(case computeConstValue rewriteAdd32 diamondFunc (vals diamondFunc 3) [1, 2] of
      Inl e \<Rightarrow> False
    | Inr (f1, c1, m1) \<Rightarrow>
        (case computeConstValue rewriteAdd32 f1 (vals f1 3) [1, 2] of
           Inl e \<Rightarrow> False
         | Inr (f2, c2, m2) \<Rightarrow>
             m1 \<and> m2
             \<and> Op (vals f2 c1) = OpConst32 \<and> Op (vals f2 c2) = OpConst32
             \<and> AuxInt (vals f2 c1) = 3 \<and> AuxInt (vals f2 c2) = 3
             \<and> c1 = 7 \<and> c2 = 8 \<and> c1 \<noteq> c2
             \<and> meet [\<lparr>tag = constant_t, val = Some c1\<rparr>, \<lparr>tag = constant_t, val = Some c2\<rparr>]
                 = \<lparr>tag = bottom_t, val = None\<rparr>))"
  by code_simp

subsection \<open>Verification of the def-use chains\<close>

lemma verifyDefUses_eq:
  "verifyDefUses t ks =
     (if \<forall>k\<in>set ks. \<forall>us. defUse t k = Some us \<longrightarrow>
           sint (Uses (vals (fn t) k)) = int (length us + length (lookupList (defBlock t) k))
      then Inr t else Inl Fatal_def_use_chain)"
  by (induction ks) (auto split: option.splits)

text \<open>
  C10, as stated, fails. In \<open>staleFunc\<close> the value \<open>v3\<close> of block 0 has the recorded use
  count 7 and one use (it controls block 0); it is the argument of no value, so it is not
  a key of \<^verbatim>\<open>t.defUse\<close>, the loop does not check it, and the build completes normally.
\<close>

theorem buildDefUses_all_values_counterexample:
  "(case buildDefUses [2, 4, 5] (initial staleFunc) of
      Inl e \<Rightarrow> False
    | Inr t \<Rightarrow>
        dom (defUse t) = set [2, 4, 5]
        \<and> 3 \<in> set (Values (blks (fn t) 0)) \<and> 0 \<in> set (Blocks (fn t))
        \<and> sint (Uses (vals (fn t) 3)) = 7
        \<and> length (lookupList (defUse t) 3) + length (lookupList (defBlock t) 3) = 1)"
  by (auto simp add: buildDefUses_def buildBlock_def buildValue_def appendAt_def lookupList_def
      initial_def staleFunc_def branchFunc_def updValue_def mkValue_def mkBlock_def)


lemma dom_appendAt: "dom (appendAt m k x) = insert k (dom m)"
  by (simp add: appendAt_def)

lemma dom_foldl_appendAt: "dom (foldl (\<lambda>m arg. appendAt m arg v) du as) = dom du \<union> set as"
  by (induction as arbitrary: du) (simp_all add: dom_appendAt)

lemma dom_buildValue: "dom (buildValue fu du v) = dom du \<union> set (Args (vals fu v))"
  by (simp add: buildValue_def dom_foldl_appendAt)

lemma dom_foldl_buildValue:
  "dom (foldl (buildValue fu) du vs) = dom du \<union> (\<Union>v\<in>set vs. set (Args (vals fu v)))"
  by (induction vs arbitrary: du) (auto simp: dom_buildValue)

lemma fn_buildBlock: "fn (buildBlock t blk) = fn t"
  by (simp add: buildBlock_def)

lemma dom_defUse_buildBlock:
  "dom (defUse (buildBlock t blk)) =
     dom (defUse t) \<union> (\<Union>v\<in>set (Values (blks (fn t) blk)). set (Args (vals (fn t) v)))"
  by (simp add: buildBlock_def dom_foldl_buildValue)

lemma foldl_buildBlock:
  "fn (foldl buildBlock t bs) = fn t
   \<and> dom (defUse (foldl buildBlock t bs)) =
       dom (defUse t) \<union>
         (\<Union>blk\<in>set bs. \<Union>v\<in>set (Values (blks (fn t) blk)). set (Args (vals (fn t) v)))"
proof (induction bs arbitrary: t)
  case Nil
  show ?case by simp
next
  case (Cons blk bs)
  from Cons [of "buildBlock t blk"] show ?case
    by (simp add: fn_buildBlock dom_defUse_buildBlock Un_assoc)
qed

text \<open>
  C10, amended. The keys of the def-use index built by \<^verbatim>\<open>buildDefUses\<close> are the values
  that are an argument of some value in a block of the function. For every such key
  \<open>k\<close> (and for no other value) the use count of \<open>k\<close> is compared with
  \<open>|defUse[k]| + |defBlock[k]|\<close>: the build step completes normally, with the index
  built, if and only if no key has a mismatch, and otherwise it ends in the fatal error.
\<close>

theorem buildDefUses_checks_keys:
  assumes "set ks = dom (defUse (foldl buildBlock t (Blocks (fn t))))"
  shows "(let t' = foldl buildBlock t (Blocks (fn t)) in
          buildDefUses ks t =
            (if \<forall>k\<in>dom (defUse t').
                  sint (Uses (vals (fn t) k)) =
                    int (length (lookupList (defUse t') k) + length (lookupList (defBlock t') k))
             then Inr t' else Inl Fatal_def_use_chain))
       \<and> (defUse t = Map.empty \<longrightarrow>
            dom (defUse (foldl buildBlock t (Blocks (fn t)))) =
              {a. \<exists>blk\<in>set (Blocks (fn t)). \<exists>v\<in>set (Values (blks (fn t) blk)).
                    a \<in> set (Args (vals (fn t) v))})"
proof -
  let ?t' = "foldl buildBlock t (Blocks (fn t))"
  have fn: "fn ?t' = fn t" using foldl_buildBlock by blast
  have "(\<forall>k\<in>set ks. \<forall>us. defUse ?t' k = Some us \<longrightarrow>
           sint (Uses (vals (fn ?t') k)) = int (length us + length (lookupList (defBlock ?t') k)))
        \<longleftrightarrow> (\<forall>k\<in>dom (defUse ?t').
                  sint (Uses (vals (fn t) k)) =
                    int (length (lookupList (defUse ?t') k) + length (lookupList (defBlock ?t') k)))"
    unfolding assms fn by (fastforce simp: lookupList_def dom_def)
  then have 1: "buildDefUses ks t =
            (if \<forall>k\<in>dom (defUse ?t').
                  sint (Uses (vals (fn t) k)) =
                    int (length (lookupList (defUse ?t') k) + length (lookupList (defBlock ?t') k))
             then Inr ?t' else Inl Fatal_def_use_chain)"
    unfolding buildDefUses_def verifyDefUses_eq by (simp only:)
  have 2: "dom (defUse ?t') =
              {a. \<exists>blk\<in>set (Blocks (fn t)). \<exists>v\<in>set (Values (blks (fn t) blk)).
                    a \<in> set (Args (vals (fn t) v))}" if "defUse t = Map.empty"
    using foldl_buildBlock [of t "Blocks (fn t)"] that by auto
  from 1 2 show ?thesis by (simp add: Let_def)
qed

theorem buildDefUses_checks_keys_witness:
  "buildDefUses [2, 4, 5] (initial (updValue branchFunc 4 (\<lambda>vl. vl\<lparr>Uses := 7\<rparr>)))
     = Inl Fatal_def_use_chain"
proof -
  let ?t = "initial (updValue branchFunc 4 (\<lambda>vl. vl\<lparr>Uses := 7\<rparr>))"
  let ?t' = "foldl buildBlock ?t (Blocks (fn ?t))"
  have du: "defUse ?t' = [2 \<mapsto> [3], 4 \<mapsto> [6], 5 \<mapsto> [6]]"
    by (simp add: buildBlock_def buildValue_def appendAt_def
        initial_def branchFunc_def updValue_def mkValue_def mkBlock_def)
  then have ks: "set [2, 4, 5] = dom (defUse ?t')" by auto
  have db: "defBlock ?t' = [3 \<mapsto> [0]]"
    by (simp add: buildBlock_def buildValue_def appendAt_def
        initial_def branchFunc_def updValue_def mkValue_def mkBlock_def)
  have bad: "\<not> (\<forall>k\<in>dom (defUse ?t').
                  sint (Uses (vals (fn ?t) k)) =
                    int (length (lookupList (defUse ?t') k) + length (lookupList (defBlock ?t') k)))"
    unfolding du db
    by (simp add: lookupList_def initial_def branchFunc_def updValue_def mkValue_def)
  from buildDefUses_checks_keys [OF ks] bad show ?thesis
    by (simp only: Let_def if_False)
qed

subsection \<open>Frame of the rewriting\<close>

lemma valFrame_refl: "valFrame fu fu x"
  by (simp add: valFrame_def)

lemma valFrame_trans: "valFrame f1 f2 x \<Longrightarrow> valFrame f2 f3 x \<Longrightarrow> valFrame f1 f3 x"
  unfolding valFrame_def by (metis subseq_order.trans)

lemma valFrame_vals: "vals fu' = vals fu \<Longrightarrow> valFrame fu fu' x"
  by (simp add: valFrame_def)

lemma blkFrame_refl: "blkFrame fu fu y"
  by (simp add: blkFrame_def)

lemma blkFrame_trans: "blkFrame f1 f2 y \<Longrightarrow> blkFrame f2 f3 y \<Longrightarrow> blkFrame f1 f3 y"
  by (simp add: blkFrame_def)

lemma vals_updBlock: "vals (updBlock fu blk g) = vals fu"
  by (simp add: updBlock_def)

lemma blks_updBlock: "blks (updBlock fu blk g) y = (if y = blk then g (blks fu blk) else blks fu y)"
  by (simp add: updBlock_def)

lemma blks_updValue: "blks (updValue fu v g) = blks fu"
  by (simp add: updValue_def)

lemma vals_updValue: "vals (updValue fu v g) x = (if x = v then g (vals fu v) else vals fu x)"
  by (simp add: updValue_def)

lemma map_eb_renumber: "map eb (xs[j := (xs ! j)\<lparr>ei := k\<rparr>]) = map eb xs"
  by (cases "j < length xs") (simp_all add: map_update list_update_same_conv list_update_beyond)

lemma sameShape_refl: "sameShape fu fu"
  by (simp add: sameShape_def blkFrame_def)

lemma sameShape_trans: "sameShape f1 f2 \<Longrightarrow> sameShape f2 f3 \<Longrightarrow> sameShape f1 f3"
  by (simp add: sameShape_def blkFrame_def)

lemma sameShape_renumber_pred:
  "sameShape g (updBlock g c (\<lambda>bl. bl\<lparr>Preds := (Preds bl)[j := (Preds bl ! j)\<lparr>ei := k\<rparr>]\<rparr>))"
  by (simp add: sameShape_def blkFrame_def vals_updBlock blks_updBlock map_eb_renumber)

lemma sameShape_renumber_succ:
  "sameShape g (updBlock g c (\<lambda>bl. bl\<lparr>Succs := (Succs bl)[j := (Succs bl ! j)\<lparr>ei := k\<rparr>]\<rparr>))"
  by (simp add: sameShape_def blkFrame_def vals_updBlock blks_updBlock map_eb_renumber)

lemma sameShape_foldl:
  assumes "\<And>g k. sameShape g (step g k)"
  shows "sameShape g (foldl step g ks)"
proof (induction ks arbitrary: g)
  case Nil
  show ?case by (simp add: sameShape_refl)
next
  case (Cons k ks)
  have "sameShape g (step g k)" by (rule assms)
  moreover have "sameShape (step g k) (foldl step (step g k) ks)" by (rule Cons)
  ultimately show ?case by (simp add: sameShape_trans)
qed

lemma sameShape_renumberSuccs: "sameShape fu (renumberSuccs fu blk)"
  unfolding renumberSuccs_def
  by (rule sameShape_foldl) (simp add: Let_def sameShape_renumber_pred)

lemma sameShape_renumberPreds: "sameShape fu (renumberPreds fu blk)"
  unfolding renumberPreds_def
  by (rule sameShape_foldl) (simp add: Let_def sameShape_renumber_succ)

lemma subseq_removeAt: "subseq (removeAt j xs) xs"
proof -
  have "drop (Suc j) xs = drop 1 (drop j xs)" by simp
  then have "suffix (drop (Suc j) xs) (drop j xs)" by (metis suffix_drop)
  then have "subseq (drop (Suc j) xs) (drop j xs)" by (rule suffix_imp_subseq)
  then have "subseq (take j xs @ drop (Suc j) xs) (take j xs @ drop j xs)"
    by (simp only: subseq_append')
  then show ?thesis by (simp add: removeAt_def)
qed

lemma removePhiArg_frame:
  "blks (removePhiArg j fu v) = blks fu \<and> (\<forall>x. valFrame fu (removePhiArg j fu v) x)"
  by (simp add: removePhiArg_def blks_updValue valFrame_def vals_updValue subseq_removeAt)

lemma foldl_removePhiArg_frame:
  "blks (foldl (removePhiArg j) fu vs) = blks fu \<and> (\<forall>x. valFrame fu (foldl (removePhiArg j) fu vs) x)"
proof (induction vs arbitrary: fu)
  case Nil
  show ?case by (simp add: valFrame_refl)
next
  case (Cons v vs)
  from Cons [of "removePhiArg j fu v"] removePhiArg_frame [of j fu v]
  show ?case by (auto intro: valFrame_trans)
qed

lemma map_removeAt: "map g (removeAt n xs) = removeAt n (map g xs)"
  by (simp add: removeAt_def take_map drop_map)

lemma removeEdge_frame:
  assumes "removeEdge fu blk n = Inr fu'"
  shows "(\<forall>x. valFrame fu fu' x) \<and> (\<forall>y. y \<noteq> blk \<longrightarrow> blkFrame fu fu' y)
       \<and> Kind (blks fu' blk) = Kind (blks fu blk) \<and> Controls (blks fu' blk) = Controls (blks fu blk)
       \<and> Likely (blks fu' blk) = Likely (blks fu blk) \<and> Values (blks fu' blk) = Values (blks fu blk)
       \<and> map eb (Succs (blks fu' blk)) = removeAt (nat n) (map eb (Succs (blks fu blk)))
       \<and> 0 \<le> n \<and> n < int (length (Succs (blks fu blk)))"
proof -
  from assms obtain e where e: "succAt (Succs (blks fu blk)) n = Inr e"
    by (auto simp: removeEdge_def split: sum.splits)
  then have range: "0 \<le> n \<and> n < int (length (Succs (blks fu blk)))"
    by (auto simp: succAt_def split: if_splits)
  define g0 where "g0 = updBlock fu blk (\<lambda>bl. bl\<lparr>Succs := removeAt (nat n) (Succs bl)\<rparr>)"
  define g1 where "g1 = renumberSuccs g0 blk"
  define g2 where "g2 = updBlock g1 (eb e) (\<lambda>bl. bl\<lparr>Preds := removeAt (ei e) (Preds bl)\<rparr>)"
  define g3 where "g3 = renumberPreds g2 (eb e)"
  have fu': "fu' = foldl (removePhiArg (ei e)) g3 (Values (blks g3 (eb e)))"
    using assms e by (simp add: removeEdge_def Let_def g0_def g1_def g2_def g3_def)
  have s1: "sameShape g0 g1" unfolding g1_def by (rule sameShape_renumberSuccs)
  have s3: "sameShape g2 g3" unfolding g3_def by (rule sameShape_renumberPreds)
  have v: "vals g3 = vals fu"
    using s1 s3 by (simp add: sameShape_def g0_def g2_def vals_updBlock)
  have b3: "blks fu' = blks g3" and vf: "\<forall>x. valFrame g3 fu' x"
    unfolding fu' using foldl_removePhiArg_frame by blast+
  have other: "blkFrame fu g3 y" if "y \<noteq> blk" for y
  proof -
    have "blkFrame fu g0 y" using that by (simp add: blkFrame_def g0_def blks_updBlock)
    moreover have "blkFrame g0 g1 y" using s1 by (simp add: sameShape_def)
    moreover have "blkFrame g1 g2 y" by (simp add: blkFrame_def g2_def blks_updBlock)
    moreover have "blkFrame g2 g3 y" using s3 by (simp add: sameShape_def)
    ultimately show ?thesis by (blast intro: blkFrame_trans)
  qed
  have g0b: "Kind (blks g0 blk) = Kind (blks fu blk) \<and> Controls (blks g0 blk) = Controls (blks fu blk)
       \<and> Likely (blks g0 blk) = Likely (blks fu blk) \<and> Values (blks g0 blk) = Values (blks fu blk)
       \<and> map eb (Succs (blks g0 blk)) = removeAt (nat n) (map eb (Succs (blks fu blk)))"
    by (simp add: g0_def blks_updBlock map_removeAt)
  have g03: "blkFrame g0 g3 blk"
  proof -
    have "blkFrame g0 g1 blk" using s1 by (simp add: sameShape_def)
    moreover have "blkFrame g1 g2 blk" by (simp add: blkFrame_def g2_def blks_updBlock)
    moreover have "blkFrame g2 g3 blk" using s3 by (simp add: sameShape_def)
    ultimately show ?thesis by (blast intro: blkFrame_trans)
  qed
  have vfu: "valFrame fu fu' x" for x
    using vf v by (simp add: valFrame_def)
  have oth: "blkFrame fu fu' y" if "y \<noteq> blk" for y
    using other [OF that] b3 by (simp add: blkFrame_def)
  from g0b g03 b3 have own: "Kind (blks fu' blk) = Kind (blks fu blk) \<and> Controls (blks fu' blk) = Controls (blks fu blk)
       \<and> Likely (blks fu' blk) = Likely (blks fu blk) \<and> Values (blks fu' blk) = Values (blks fu blk)
       \<and> map eb (Succs (blks fu' blk)) = removeAt (nat n) (map eb (Succs (blks fu blk)))"
    by (simp add: blkFrame_def)
  from vfu oth own range show ?thesis by blast
qed

lemma rewireBlock_frame:
  assumes "rewireBlock k (fu, rc) blk = Inr (fu', rc')"
  shows "(\<forall>x. valFrame fu fu' x) \<and> (\<forall>y. y \<noteq> blk \<longrightarrow> blkFrame fu fu' y)
       \<and> (Kind (blks fu blk) = BlockIf \<or> Kind (blks fu blk) = BlockJumpTable)
       \<and> (Kind (blks fu blk) = BlockJumpTable \<longrightarrow> fu' = fu \<and> rc' = rc)
       \<and> (Kind (blks fu blk) = BlockIf \<longrightarrow>
            Kind (blks fu' blk) = BlockPlain \<and> Controls (blks fu' blk) = []
            \<and> Likely (blks fu' blk) = BranchUnknown \<and> Values (blks fu' blk) = Values (blks fu blk)
            \<and> map eb (Succs (blks fu' blk)) =
                removeAt (nat (sint (AuxInt (vals fu k)))) (map eb (Succs (blks fu blk)))
            \<and> 0 \<le> sint (AuxInt (vals fu k))
            \<and> sint (AuxInt (vals fu k)) < int (length (Succs (blks fu blk)))
            \<and> rc' = Suc rc)"
proof (cases "Kind (blks fu blk)")
  case BlockIf
  with assms obtain f1 where f1: "removeEdge fu blk (sint (AuxInt (vals fu k))) = Inr f1"
    and fu': "fu' = ResetControls
                (updBlock f1 blk (\<lambda>bl. bl\<lparr>Kind := BlockPlain, Likely := BranchUnknown\<rparr>)) blk"
    and rc': "rc' = Suc rc"
    by (auto simp: rewireBlock_def split: sum.splits)
  note fr = removeEdge_frame [OF f1]
  have v: "vals fu' = vals f1" by (simp add: fu' ResetControls_def vals_updBlock)
  have b: "blks fu' y = (if y = blk
             then (blks f1 blk)\<lparr>Kind := BlockPlain, Likely := BranchUnknown, Controls := []\<rparr>
             else blks f1 y)" for y
    by (simp add: fu' ResetControls_def blks_updBlock)
  have 1: "valFrame fu fu' x" for x
    using fr v by (simp add: valFrame_def)
  have 2: "blkFrame fu fu' y" if "y \<noteq> blk" for y
    using fr that b [of y] by (simp add: blkFrame_def)
  have 3: "Kind (blks fu' blk) = BlockPlain \<and> Controls (blks fu' blk) = []
            \<and> Likely (blks fu' blk) = BranchUnknown \<and> Values (blks fu' blk) = Values (blks fu blk)
            \<and> map eb (Succs (blks fu' blk)) =
                removeAt (nat (sint (AuxInt (vals fu k)))) (map eb (Succs (blks fu blk)))"
    using fr b [of blk] by simp
  from 1 2 3 fr rc' BlockIf show ?thesis by simp
next
  case BlockJumpTable
  with assms have "fu' = fu" "rc' = rc" by (simp_all add: rewireBlock_def)
  with BlockJumpTable show ?thesis by (simp add: valFrame_refl blkFrame_refl)
qed (use assms in \<open>simp_all add: rewireBlock_def\<close>)

lemma rewireBlocks_frame:
  "rewireBlocks k (fu, rc) bs = Inr (fu', rc') \<Longrightarrow>
   (\<forall>x. valFrame fu fu' x) \<and> (\<forall>y. y \<notin> set bs \<longrightarrow> blkFrame fu fu' y)"
proof (induction bs arbitrary: fu rc)
  case Nil
  then show ?case by (simp add: valFrame_refl blkFrame_refl)
next
  case (Cons blk bs)
  from Cons.prems obtain f1 rc1 where h: "rewireBlock k (fu, rc) blk = Inr (f1, rc1)"
    and t: "rewireBlocks k (f1, rc1) bs = Inr (fu', rc')"
    by (auto split: sum.splits)
  note a = rewireBlock_frame [OF h] and b = Cons.IH [OF t]
  have "valFrame fu fu' x" for x using a b by (blast intro: valFrame_trans)
  moreover have "blkFrame fu fu' y" if "y \<notin> set (blk # bs)" for y
  proof -
    from that have "y \<noteq> blk" "y \<notin> set bs" by simp_all
    with a b show ?thesis by (blast intro: blkFrame_trans)
  qed
  ultimately show ?case by blast
qed

lemma rewireBlocks_not_twice:
  "blk \<in> set bs \<Longrightarrow> Kind (blks fu blk) = BlockPlain \<Longrightarrow> rewireBlocks k (fu, rc) bs \<noteq> Inr st'"
proof (induction bs arbitrary: fu rc)
  case Nil
  then show ?case by simp
next
  case (Cons b0 bs)
  show ?case
  proof (cases "b0 = blk")
    case True
    with Cons.prems(2) show ?thesis by (simp add: rewireBlock_def)
  next
    case False
    with Cons.prems(1) have mem: "blk \<in> set bs" by simp
    show ?thesis
    proof (cases "rewireBlock k (fu, rc) b0")
      case (Inl e)
      then show ?thesis by simp
    next
      case (Inr st1)
      obtain f1 rc1 where st1: "st1 = (f1, rc1)" by (cases st1)
      from rewireBlock_frame [OF Inr [unfolded st1]] False
      have "blkFrame fu f1 blk" by auto
      with Cons.prems(2) have "Kind (blks f1 blk) = BlockPlain" by (simp add: blkFrame_def)
      from Cons.IH [OF mem this] Inr st1 show ?thesis by simp
    qed
  qed
qed

text \<open>An If block in the list is rewired, once, on the constant \<open>k\<close>.\<close>

lemma rewireBlocks_If:
  "rewireBlocks k (fu, rc) bs = Inr (fu', rc') \<Longrightarrow> blk \<in> set bs \<Longrightarrow>
   Kind (blks fu blk) = BlockIf \<Longrightarrow>
   Kind (blks fu' blk) = BlockPlain \<and> Controls (blks fu' blk) = []
   \<and> Likely (blks fu' blk) = BranchUnknown \<and> Values (blks fu' blk) = Values (blks fu blk)
   \<and> map eb (Succs (blks fu' blk)) =
       removeAt (nat (sint (AuxInt (vals fu k)))) (map eb (Succs (blks fu blk)))
   \<and> 0 \<le> sint (AuxInt (vals fu k))
   \<and> sint (AuxInt (vals fu k)) < int (length (Succs (blks fu blk)))"
proof (induction bs arbitrary: fu rc)
  case Nil
  then show ?case by simp
next
  case (Cons b0 bs)
  from Cons.prems(1) obtain f1 rc1 where h: "rewireBlock k (fu, rc) b0 = Inr (f1, rc1)"
    and t: "rewireBlocks k (f1, rc1) bs = Inr (fu', rc')"
    by (auto split: sum.splits)
  note a = rewireBlock_frame [OF h]
  show ?case
  proof (cases "b0 = blk")
    case True
    with a Cons.prems(3) have now: "Kind (blks f1 blk) = BlockPlain \<and> Controls (blks f1 blk) = []
            \<and> Likely (blks f1 blk) = BranchUnknown \<and> Values (blks f1 blk) = Values (blks fu blk)
            \<and> map eb (Succs (blks f1 blk)) =
                removeAt (nat (sint (AuxInt (vals fu k)))) (map eb (Succs (blks fu blk)))
            \<and> 0 \<le> sint (AuxInt (vals fu k))
            \<and> sint (AuxInt (vals fu k)) < int (length (Succs (blks fu blk)))"
      by simp
    have "blk \<notin> set bs"
    proof
      assume "blk \<in> set bs"
      from rewireBlocks_not_twice [OF this, of f1 k rc1 "(fu', rc')"] now t show False by simp
    qed
    with rewireBlocks_frame [OF t] have "blkFrame f1 fu' blk" by blast
    with now show ?thesis by (simp add: blkFrame_def)
  next
    case False
    with Cons.prems(2) have mem: "blk \<in> set bs" by simp
    from a False have bf: "blkFrame fu f1 blk" by auto
    from a have vf: "valFrame fu f1 k" by blast
    from bf Cons.prems(3) have "Kind (blks f1 blk) = BlockIf" by (simp add: blkFrame_def)
    moreover from bf have "length (Succs (blks f1 blk)) = length (Succs (blks fu blk))"
      unfolding blkFrame_def by (metis length_map)
    ultimately show ?thesis
      using Cons.IH [OF t mem] bf vf by (simp add: blkFrame_def valFrame_def)
  qed
qed

lemma getLatticeCell_cong: "latticeCells t' = latticeCells t \<Longrightarrow> getLatticeCell t' x = getLatticeCell t x"
  by (simp add: getLatticeCell_def)

text \<open>
  One entry of the lattice table whose cell is Const(k) and whose value \<open>u\<close> is not yet a
  constant: what the loop body does to \<open>u\<close>, to the other values and to the blocks.
\<close>

lemma replaceValue_replaced:
  assumes "replaceValue (t, cc, rc) u = Inr (t', cc', rc')"
    and "latticeCells t u = Some lt" and "tag lt = constant_t" and "\<not> isConst (vals (fn t) u)"
  shows "\<exists>k. val lt = Some k
       \<and> latticeCells t' = latticeCells t \<and> defBlock t' = defBlock t
       \<and> (\<forall>x. x \<noteq> u \<longrightarrow> valFrame (fn t) (fn t') x)
       \<and> Type (vals (fn t') u) = Type (vals (fn t) u) \<and> Block (vals (fn t') u) = Block (vals (fn t) u)
       \<and> Pos (vals (fn t') u) = Pos (vals (fn t) u)
       \<and> Args (vals (fn t') u) = []
       \<and> (k \<noteq> u \<longrightarrow> Op (vals (fn t') u) = Op (vals (fn t) k)
                    \<and> AuxInt (vals (fn t') u) = AuxInt (vals (fn t) k))
       \<and> (\<forall>y. y \<notin> set (lookupList (defBlock t) u) \<longrightarrow> blkFrame (fn t) (fn t') y)
       \<and> (\<forall>blk\<in>set (lookupList (defBlock t) u). k \<noteq> u \<and> Kind (blks (fn t) blk) = BlockIf \<longrightarrow>
             Kind (blks (fn t') blk) = BlockPlain \<and> Controls (blks (fn t') blk) = []
             \<and> Likely (blks (fn t') blk) = BranchUnknown
             \<and> map eb (Succs (blks (fn t') blk)) =
                 removeAt (nat (sint (AuxInt (vals (fn t) k)))) (map eb (Succs (blks (fn t) blk)))
             \<and> 0 \<le> sint (AuxInt (vals (fn t) k))
             \<and> sint (AuxInt (vals (fn t) k)) < int (length (Succs (blks (fn t) blk))))"
proof -
  from assms obtain k where k: "val lt = Some k"
    by (auto simp: replaceValue_def split: option.splits)
  define f1 where "f1 = reset (fn t) u (Op (vals (fn t) k))"
  define f2 where "f2 = updValue f1 u (\<lambda>vl. vl\<lparr>AuxInt := AuxInt (vals f1 k)\<rparr>)"
  from assms k obtain f3 where rw: "rewireBlocks k (f2, rc) (lookupList (defBlock t) u) = Inr (f3, rc')"
    and t': "t' = t\<lparr>fn := f3\<rparr>"
    by (auto simp: replaceValue_def Let_def f1_def f2_def split: sum.splits)
  have b2: "blks f2 = blks (fn t)"
    by (simp add: f2_def f1_def reset_def blks_updValue)
  have v2: "vals f2 x = (if x = u
        then (vals (fn t) u)\<lparr>Op := Op (vals (fn t) k), AuxInt := AuxInt (vals f1 k), Args := []\<rparr>
        else vals (fn t) x)" for x
    by (simp add: f2_def f1_def reset_def vals_updValue)
  have k1: "vals f1 k = vals (fn t) k" if "k \<noteq> u"
    using that by (simp add: f1_def reset_def vals_updValue)
  note fr = rewireBlocks_frame [OF rw]
  have other: "valFrame (fn t) (fn t') x" if "x \<noteq> u" for x
  proof -
    from that v2 [of x] have "valFrame (fn t) f2 x" by (simp add: valFrame_def)
    moreover from fr have "valFrame f2 f3 x" by blast
    ultimately show ?thesis by (simp add: t') (rule valFrame_trans)
  qed
  from fr have fu: "valFrame f2 f3 u" by blast
  have args: "Args (vals (fn t') u) = []"
    using fu v2 [of u] by (auto simp: valFrame_def t' dest: list_emb_Nil2)
  have meta: "Type (vals (fn t') u) = Type (vals (fn t) u) \<and> Block (vals (fn t') u) = Block (vals (fn t) u)
       \<and> Pos (vals (fn t') u) = Pos (vals (fn t) u)"
    using fu v2 [of u] by (simp add: valFrame_def t')
  have opaux: "Op (vals (fn t') u) = Op (vals (fn t) k) \<and> AuxInt (vals (fn t') u) = AuxInt (vals (fn t) k)"
    if "k \<noteq> u"
    using fu v2 [of u] k1 [OF that] by (simp add: valFrame_def t')
  have blko: "blkFrame (fn t) (fn t') y" if "y \<notin> set (lookupList (defBlock t) u)" for y
  proof -
    from fr that have "blkFrame f2 f3 y" by blast
    with b2 show ?thesis by (simp add: blkFrame_def t')
  qed
  have blki: "Kind (blks (fn t') blk) = BlockPlain \<and> Controls (blks (fn t') blk) = []
             \<and> Likely (blks (fn t') blk) = BranchUnknown
             \<and> map eb (Succs (blks (fn t') blk)) =
                 removeAt (nat (sint (AuxInt (vals (fn t) k)))) (map eb (Succs (blks (fn t) blk)))
             \<and> 0 \<le> sint (AuxInt (vals (fn t) k))
             \<and> sint (AuxInt (vals (fn t) k)) < int (length (Succs (blks (fn t) blk)))"
    if "blk \<in> set (lookupList (defBlock t) u)" and "k \<noteq> u" and "Kind (blks (fn t) blk) = BlockIf" for blk
  proof -
    from that(3) b2 have "Kind (blks f2 blk) = BlockIf" by simp
    from rewireBlocks_If [OF rw that(1) this] v2 [of k] that(2) b2
    show ?thesis by (simp add: t')
  qed
  have tabs: "latticeCells t' = latticeCells t \<and> defBlock t' = defBlock t" by (simp add: t')
  from k tabs other meta args opaux blko blki show ?thesis by blast
qed

lemma replaceValue_skipped:
  assumes "replaceValue (t, cc, rc) u = Inr (t', cc', rc')"
    and "tag (getLatticeCell t u) \<noteq> constant_t \<or> isConst (vals (fn t) u)"
  shows "t' = t"
  using assms
  by (auto simp: replaceValue_def getLatticeCell_def split: option.splits if_splits)

lemma replaceValue_other:
  assumes "replaceValue (t, cc, rc) u = Inr (t', cc', rc')"
  shows "latticeCells t' = latticeCells t \<and> defBlock t' = defBlock t
       \<and> (\<forall>x. x \<noteq> u \<longrightarrow> valFrame (fn t) (fn t') x)
       \<and> (\<forall>y. y \<notin> set (lookupList (defBlock t) u) \<longrightarrow> blkFrame (fn t) (fn t') y)"
proof (cases "tag (getLatticeCell t u) \<noteq> constant_t \<or> isConst (vals (fn t) u)")
  case True
  from replaceValue_skipped [OF assms True] show ?thesis
    by (simp add: valFrame_refl blkFrame_refl)
next
  case False
  then obtain lt where "latticeCells t u = Some lt" "tag lt = constant_t" "\<not> isConst (vals (fn t) u)"
    by (auto simp: getLatticeCell_def split: option.splits)
  from replaceValue_replaced [OF assms this] show ?thesis by blast
qed

lemma replaceValue_frame:
  assumes "replaceValue (t, cc, rc) u = Inr (t', cc', rc')"
    and "tag (getLatticeCell t x) \<noteq> constant_t \<or> isConst (vals (fn t) x)"
  shows "valFrame (fn t) (fn t') x"
proof (cases "x = u")
  case True
  with replaceValue_skipped [OF assms(1)] assms(2) show ?thesis by (simp add: valFrame_refl)
next
  case False
  with replaceValue_other [OF assms(1)] show ?thesis by blast
qed

lemma replaceLoop_other:
  "replaceLoop (t, cc, rc) vs = Inr (t', cc', rc') \<Longrightarrow>
   latticeCells t' = latticeCells t \<and> defBlock t' = defBlock t
   \<and> (\<forall>x. x \<notin> set vs \<longrightarrow> valFrame (fn t) (fn t') x)
   \<and> (\<forall>y. (\<forall>u\<in>set vs. y \<notin> set (lookupList (defBlock t) u)) \<longrightarrow> blkFrame (fn t) (fn t') y)"
proof (induction vs arbitrary: t cc rc)
  case Nil
  then show ?case by (simp add: valFrame_refl blkFrame_refl)
next
  case (Cons u vs)
  from Cons.prems obtain t1 cc1 rc1 where h: "replaceValue (t, cc, rc) u = Inr (t1, cc1, rc1)"
    and r: "replaceLoop (t1, cc1, rc1) vs = Inr (t', cc', rc')"
    by (auto split: sum.splits)
  note a = replaceValue_other [OF h] and b = Cons.IH [OF r]
  have tabs: "latticeCells t' = latticeCells t \<and> defBlock t' = defBlock t"
    using a b by simp
  have vf: "valFrame (fn t) (fn t') x" if "x \<notin> set (u # vs)" for x
  proof -
    from that have "x \<noteq> u" "x \<notin> set vs" by simp_all
    with a b show ?thesis by (blast intro: valFrame_trans)
  qed
  have bf: "blkFrame (fn t) (fn t') y"
    if "\<forall>w\<in>set (u # vs). y \<notin> set (lookupList (defBlock t) w)" for y
  proof -
    from that have 1: "y \<notin> set (lookupList (defBlock t) u)"
      and 2: "\<forall>w\<in>set vs. y \<notin> set (lookupList (defBlock t1) w)"
      using a by simp_all
    from a 1 have "blkFrame (fn t) (fn t1) y" by blast
    moreover from b 2 have "blkFrame (fn t1) (fn t') y" by blast
    ultimately show ?thesis by (rule blkFrame_trans)
  qed
  from tabs vf bf show ?case by blast
qed

lemma replaceLoop_frame:
  "replaceLoop (t, cc, rc) vs = Inr (t', cc', rc') \<Longrightarrow>
   tag (getLatticeCell t x) \<noteq> constant_t \<or> isConst (vals (fn t) x) \<Longrightarrow>
   valFrame (fn t) (fn t') x"
proof (induction vs arbitrary: t cc rc)
  case Nil
  then show ?case by (simp add: valFrame_refl)
next
  case (Cons u vs)
  from Cons.prems(1) obtain t1 cc1 rc1 where h: "replaceValue (t, cc, rc) u = Inr (t1, cc1, rc1)"
    and r: "replaceLoop (t1, cc1, rc1) vs = Inr (t', cc', rc')"
    by (auto split: sum.splits)
  have 1: "valFrame (fn t) (fn t1) x" using h Cons.prems(2) by (rule replaceValue_frame)
  have "latticeCells t1 = latticeCells t" using replaceValue_other [OF h] by blast
  then have "getLatticeCell t1 x = getLatticeCell t x" by (rule getLatticeCell_cong)
  moreover from 1 have "isConst (vals (fn t1) x) = isConst (vals (fn t) x)"
    by (simp add: valFrame_def isConst_def)
  ultimately have "tag (getLatticeCell t1 x) \<noteq> constant_t \<or> isConst (vals (fn t1) x)"
    using Cons.prems(2) by simp
  from Cons.IH [OF r this] 1 show ?case by (blast intro: valFrame_trans)
qed



text \<open>
  The loop of \<^verbatim>\<open>replaceConst\<close> in terms of the index \<open>defBlock\<close>: a value \<open>v\<close> with the
  cell Const(k) that is not yet a constant is reset to \<open>k\<close>, and every If block listed
  under \<open>v\<close>, and under no other value, is rewired.
\<close>

lemma replaceConst_const_index:
  assumes "replaceConst order t = Inr (t', constCnt, rewireCnt)"
    and "distinct order" and "v \<in> set order"
    and "latticeCells t v = Some \<lparr>tag = constant_t, val = Some k\<rparr>"
    and "\<not> isConst (vals (fn t) v)" and "isConst (vals (fn t) k)"
  shows "Op (vals (fn t') v) = Op (vals (fn t) k) \<and> AuxInt (vals (fn t') v) = AuxInt (vals (fn t) k)
       \<and> Args (vals (fn t') v) = []
       \<and> Type (vals (fn t') v) = Type (vals (fn t) v) \<and> Block (vals (fn t') v) = Block (vals (fn t) v)
       \<and> Pos (vals (fn t') v) = Pos (vals (fn t) v)
       \<and> (\<forall>blk\<in>set (lookupList (defBlock t) v).
             Kind (blks (fn t) blk) = BlockIf
             \<and> (\<forall>u. u \<noteq> v \<longrightarrow> blk \<notin> set (lookupList (defBlock t) u)) \<longrightarrow>
             Kind (blks (fn t') blk) = BlockPlain \<and> Controls (blks (fn t') blk) = []
             \<and> Likely (blks (fn t') blk) = BranchUnknown
             \<and> map eb (Succs (blks (fn t') blk)) =
                 removeAt (nat (sint (AuxInt (vals (fn t) k)))) (map eb (Succs (blks (fn t) blk)))
             \<and> 0 \<le> sint (AuxInt (vals (fn t) k))
             \<and> sint (AuxInt (vals (fn t) k)) < int (length (Succs (blks (fn t) blk)))
             \<and> (\<forall>s0 s1. Succs (blks (fn t) blk) = [s0, s1] \<longrightarrow>
                  (AuxInt (vals (fn t) k) = 1 \<longrightarrow> map eb (Succs (blks (fn t') blk)) = [eb s0])
                  \<and> (AuxInt (vals (fn t) k) = 0 \<longrightarrow> map eb (Succs (blks (fn t') blk)) = [eb s1])))"
proof -
  from assms(3) obtain pre post where order: "order = pre @ v # post"
    by (auto simp: in_set_conv_decomp)
  with assms(2) have vpre: "v \<notin> set pre" and vpost: "v \<notin> set post" by auto
  have kv: "k \<noteq> v" using assms(5,6) by auto
  have split: "replaceLoop st (xs @ ys) =
      (case replaceLoop st xs of Inl e \<Rightarrow> Inl e | Inr st' \<Rightarrow> replaceLoop st' ys)" for st xs ys
    by (induction xs arbitrary: st) (auto split: sum.splits)
  from assms(1) obtain t1 c1 r1 where p1: "replaceLoop (t, 0, 0) pre = Inr (t1, c1, r1)"
    and rest: "replaceLoop (t1, c1, r1) (v # post) = Inr (t', constCnt, rewireCnt)"
    unfolding replaceConst_def order split by (auto split: sum.splits)
  from rest obtain t2 c2 r2 where p2: "replaceValue (t1, c1, r1) v = Inr (t2, c2, r2)"
    and p3: "replaceLoop (t2, c2, r2) post = Inr (t', constCnt, rewireCnt)"
    by (auto split: sum.splits)
  note o1 = replaceLoop_other [OF p1] and o3 = replaceLoop_other [OF p3]
  text \<open>Before \<open>v\<close> is reached, \<open>v\<close>, \<open>k\<close> and the blocks of \<open>v\<close> are as at the start.\<close>
  have v1: "valFrame (fn t) (fn t1) v" using o1 vpre by blast
  have k1: "valFrame (fn t) (fn t1) k"
    using p1 assms(6) by (intro replaceLoop_frame) simp_all
  have cell1: "latticeCells t1 v = Some \<lparr>tag = constant_t, val = Some k\<rparr>"
    using o1 assms(4) by simp
  have nc1: "\<not> isConst (vals (fn t1) v)"
    using v1 assms(5) by (simp add: valFrame_def isConst_def)
  from replaceValue_replaced [OF p2 cell1 _ nc1] kv
  have s2: "latticeCells t2 = latticeCells t1" "defBlock t2 = defBlock t1"
      "Type (vals (fn t2) v) = Type (vals (fn t1) v)" "Block (vals (fn t2) v) = Block (vals (fn t1) v)"
      "Pos (vals (fn t2) v) = Pos (vals (fn t1) v)" "Args (vals (fn t2) v) = []"
      "Op (vals (fn t2) v) = Op (vals (fn t1) k)" "AuxInt (vals (fn t2) v) = AuxInt (vals (fn t1) k)"
    and b2: "\<forall>blk\<in>set (lookupList (defBlock t1) v). Kind (blks (fn t1) blk) = BlockIf \<longrightarrow>
             Kind (blks (fn t2) blk) = BlockPlain \<and> Controls (blks (fn t2) blk) = []
             \<and> Likely (blks (fn t2) blk) = BranchUnknown
             \<and> map eb (Succs (blks (fn t2) blk)) =
                 removeAt (nat (sint (AuxInt (vals (fn t1) k)))) (map eb (Succs (blks (fn t1) blk)))
             \<and> 0 \<le> sint (AuxInt (vals (fn t1) k))
             \<and> sint (AuxInt (vals (fn t1) k)) < int (length (Succs (blks (fn t1) blk)))"
    by auto
  text \<open>Afterwards \<open>v\<close> is a constant, and is left alone.\<close>
  have "isConst (vals (fn t2) v)"
    using s2(7) k1 assms(6) by (simp add: valFrame_def isConst_def)
  with p3 have v3: "valFrame (fn t2) (fn t') v" by (intro replaceLoop_frame) simp_all
  have valpart: "Op (vals (fn t') v) = Op (vals (fn t) k) \<and> AuxInt (vals (fn t') v) = AuxInt (vals (fn t) k)
       \<and> Args (vals (fn t') v) = []
       \<and> Type (vals (fn t') v) = Type (vals (fn t) v) \<and> Block (vals (fn t') v) = Block (vals (fn t) v)
       \<and> Pos (vals (fn t') v) = Pos (vals (fn t) v)"
    using v3 s2 v1 k1 by (auto simp: valFrame_def dest: list_emb_Nil2)
  have blockpart: "Kind (blks (fn t') blk) = BlockPlain \<and> Controls (blks (fn t') blk) = []
             \<and> Likely (blks (fn t') blk) = BranchUnknown
             \<and> map eb (Succs (blks (fn t') blk)) =
                 removeAt (nat (sint (AuxInt (vals (fn t) k)))) (map eb (Succs (blks (fn t) blk)))
             \<and> 0 \<le> sint (AuxInt (vals (fn t) k))
             \<and> sint (AuxInt (vals (fn t) k)) < int (length (Succs (blks (fn t) blk)))"
    if mem: "blk \<in> set (lookupList (defBlock t) v)" and kind: "Kind (blks (fn t) blk) = BlockIf"
      and only: "\<forall>u. u \<noteq> v \<longrightarrow> blk \<notin> set (lookupList (defBlock t) u)" for blk
  proof -
    have "\<forall>u\<in>set pre. blk \<notin> set (lookupList (defBlock t) u)"
      using only vpre by metis
    with o1 have f1: "blkFrame (fn t) (fn t1) blk" by simp
    have db: "defBlock t2 = defBlock t" "defBlock t1 = defBlock t" using o1 s2(2) by simp_all
    have "\<forall>u\<in>set post. blk \<notin> set (lookupList (defBlock t2) u)"
      unfolding db using only vpost by metis
    with o3 have f3: "blkFrame (fn t2) (fn t') blk" by simp
    from f1 kind have "Kind (blks (fn t1) blk) = BlockIf" by (simp add: blkFrame_def)
    with b2 mem db have "Kind (blks (fn t2) blk) = BlockPlain \<and> Controls (blks (fn t2) blk) = []
             \<and> Likely (blks (fn t2) blk) = BranchUnknown
             \<and> map eb (Succs (blks (fn t2) blk)) =
                 removeAt (nat (sint (AuxInt (vals (fn t1) k)))) (map eb (Succs (blks (fn t1) blk)))
             \<and> 0 \<le> sint (AuxInt (vals (fn t1) k))
             \<and> sint (AuxInt (vals (fn t1) k)) < int (length (Succs (blks (fn t1) blk)))"
      by simp
    moreover from f1 have "length (Succs (blks (fn t1) blk)) = length (Succs (blks (fn t) blk))"
      unfolding blkFrame_def by (metis length_map)
    ultimately show ?thesis
      using f1 f3 k1 by (simp add: blkFrame_def valFrame_def)
  qed
  have bl: "\<forall>blk\<in>set (lookupList (defBlock t) v).
             Kind (blks (fn t) blk) = BlockIf
             \<and> (\<forall>u. u \<noteq> v \<longrightarrow> blk \<notin> set (lookupList (defBlock t) u)) \<longrightarrow>
             Kind (blks (fn t') blk) = BlockPlain \<and> Controls (blks (fn t') blk) = []
             \<and> Likely (blks (fn t') blk) = BranchUnknown
             \<and> map eb (Succs (blks (fn t') blk)) =
                 removeAt (nat (sint (AuxInt (vals (fn t) k)))) (map eb (Succs (blks (fn t) blk)))
             \<and> 0 \<le> sint (AuxInt (vals (fn t) k))
             \<and> sint (AuxInt (vals (fn t) k)) < int (length (Succs (blks (fn t) blk)))
             \<and> (\<forall>s0 s1. Succs (blks (fn t) blk) = [s0, s1] \<longrightarrow>
                  (AuxInt (vals (fn t) k) = 1 \<longrightarrow> map eb (Succs (blks (fn t') blk)) = [eb s0])
                  \<and> (AuxInt (vals (fn t) k) = 0 \<longrightarrow> map eb (Succs (blks (fn t') blk)) = [eb s1]))"
  proof (intro ballI impI)
    fix blk
    assume mem: "blk \<in> set (lookupList (defBlock t) v)"
      and hyp: "Kind (blks (fn t) blk) = BlockIf
             \<and> (\<forall>u. u \<noteq> v \<longrightarrow> blk \<notin> set (lookupList (defBlock t) u))"
    note b = blockpart [OF mem conjunct1 [OF hyp] conjunct2 [OF hyp]]
    have "(AuxInt (vals (fn t) k) = 1 \<longrightarrow> map eb (Succs (blks (fn t') blk)) = [eb s0])
        \<and> (AuxInt (vals (fn t) k) = 0 \<longrightarrow> map eb (Succs (blks (fn t') blk)) = [eb s1])"
      if "Succs (blks (fn t) blk) = [s0, s1]" for s0 s1
      using b that by (auto simp: removeAt_def)
    with b show "Kind (blks (fn t') blk) = BlockPlain \<and> Controls (blks (fn t') blk) = []
             \<and> Likely (blks (fn t') blk) = BranchUnknown
             \<and> map eb (Succs (blks (fn t') blk)) =
                 removeAt (nat (sint (AuxInt (vals (fn t) k)))) (map eb (Succs (blks (fn t) blk)))
             \<and> 0 \<le> sint (AuxInt (vals (fn t) k))
             \<and> sint (AuxInt (vals (fn t) k)) < int (length (Succs (blks (fn t) blk)))
             \<and> (\<forall>s0 s1. Succs (blks (fn t) blk) = [s0, s1] \<longrightarrow>
                  (AuxInt (vals (fn t) k) = 1 \<longrightarrow> map eb (Succs (blks (fn t') blk)) = [eb s0])
                  \<and> (AuxInt (vals (fn t) k) = 0 \<longrightarrow> map eb (Succs (blks (fn t') blk)) = [eb s1]))"
      by blast
  qed
  from valpart bl show ?thesis by (elim conjE) (intro conjI; assumption)
qed


subsection \<open>The cells are not monotone\<close>

text \<open>
  C1 fails on the code. On the diamond, with the rewriter folding \<open>v3 = Add32 v1 v2\<close>,
  the cell installed for the phi \<open>v6\<close> is Const (node 7) after 6 iterations of the loop,
  Bottom after 10 and Const again (node 9) after 12: the cell is raised from Bottom to
  Const, and it changes three times. The cell of \<open>v3\<close> itself is Const on a new node at
  each of its three visits (nodes 7, 8, 9). The loop ends after 17 iterations.
\<close>

theorem lattice_cell_raised:
  "(case buildDefUses [1, 2, 5, 3] (initial diamondFunc) of
      Inl e \<Rightarrow> False
    | Inr t \<Rightarrow>
        map (\<lambda>n. case sccp_steps rewriteAdd32 n t of Inl e \<Rightarrow> None | Inr t' \<Rightarrow> latticeCells t' 6)
            [5, 6, 10, 12]
          = [None, Some \<lparr>tag = constant_t, val = Some 7\<rparr>, Some \<lparr>tag = bottom_t, val = None\<rparr>,
             Some \<lparr>tag = constant_t, val = Some 9\<rparr>]
        \<and> map (\<lambda>n. case sccp_steps rewriteAdd32 n t of Inl e \<Rightarrow> None | Inr t' \<Rightarrow> latticeCells t' 3)
            [1, 8, 9]
          = [Some \<lparr>tag = constant_t, val = Some 7\<rparr>, Some \<lparr>tag = constant_t, val = Some 8\<rparr>,
             Some \<lparr>tag = constant_t, val = Some 9\<rparr>]
        \<and> (case sccp_loop rewriteAdd32 17 t of
              Some (Inr t') \<Rightarrow> latticeCells t' 6 = Some \<lparr>tag = constant_t, val = Some 9\<rparr>
            | _ \<Rightarrow> False))"
  by code_simp

subsection \<open>Phis at the fixed point\<close>

lemma visitPhi_loop_eq:
  "visitPhi_loop t blk as ps acc = Inr L \<Longrightarrow>
   L = acc @ map (\<lambda>(a, p). getLatticeCell t a)
                 (filter (\<lambda>(a, p). (eb p, blk) \<in> visited t) (zip as ps))"
  by (induction t blk as ps acc rule: visitPhi_loop.induct)
     (auto simp: isVisited_def split: if_splits)

lemma sameStruct_refl: "sameStruct fu fu"
  by (simp add: sameStruct_def)

lemma sameStruct_computeConstValue:
  assumes "rewriterLocal rw" and "sameStruct fu g"
    and "computeConstValue rw g vl as = Inr (g', c, m)"
  shows "sameStruct fu g'"
proof -
  define g1 where "g1 = fst (newValue g (Op vl) (Type vl) (Entry g) (Pos vl))"
  define g2 where "g2 = AddArgs g1 (nextVid g) as"
  have g': "g' = fst (rw g2 (nextVid g))"
    using assms(3)
    by (auto simp: computeConstValue_def newValue_def Let_def g1_def g2_def
             split: prod.splits if_splits)
  have s2: "blks g2 = blks g \<and> Blocks g2 = Blocks g \<and> Entry g2 = Entry g
      \<and> nextVid g2 = Suc (nextVid g)
      \<and> (\<forall>x. x \<noteq> nextVid g \<longrightarrow> vals g2 x = vals g x)"
    by (simp add: g2_def g1_def newValue_def AddArgs_def)
  from assms(1) have loc: "blks g' = blks g2 \<and> Blocks g' = Blocks g2
            \<and> Entry g' = Entry g2 \<and> nextVid g2 \<le> nextVid g'
            \<and> (\<forall>x. x \<noteq> nextVid g \<longrightarrow> Op (vals g' x) = Op (vals g2 x)
                        \<and> Args (vals g' x) = Args (vals g2 x)
                        \<and> Block (vals g' x) = Block (vals g2 x))"
    unfolding rewriterLocal_def g' by blast
  from assms(2) s2 loc show ?thesis
    unfolding sameStruct_def by (auto simp: less_le_trans)
qed


lemma visitEval_shape:
  assumes "rewriterLocal rw" and "sameStruct fu (fn t)" and "visitEval rw t u = Inr t1"
  shows "\<exists>c g. t1 = t\<lparr>fn := g, latticeCells := (latticeCells t)(u \<mapsto> c)\<rparr> \<and> sameStruct fu g"
proof -
  have same: "\<exists>c g. t\<lparr>latticeCells := (latticeCells t)(u \<mapsto> d)\<rparr>
                  = t\<lparr>fn := g, latticeCells := (latticeCells t)(u \<mapsto> c)\<rparr> \<and> sameStruct fu g" for d
    using assms(2) by (intro exI [of _ d] exI [of _ "fn t"]) simp
  from assms(3) obtain a0 a1 as where args: "Args (vals (fn t) u) = a0 # a1 # as"
    by (cases "Args (vals (fn t) u)"; cases "tl (Args (vals (fn t) u))")
       (auto simp: visitEval_def Let_def)
  show ?thesis
  proof (cases "tag (getLatticeCell t a0) \<noteq> constant_t \<or> tag (getLatticeCell t a1) \<noteq> constant_t")
    case True
    with assms(3) args have "t1 = setCell t u worstLt" by (auto simp: visitEval_def Let_def)
    with same show ?thesis by (simp add: setCell_def)
  next
    case False
    with assms(3) args obtain z where z: "isDivByZero (fn t) (Op (vals (fn t) u)) (val (getLatticeCell t a1)) = Inr z"
      by (auto simp: visitEval_def Let_def split: sum.splits)
    show ?thesis
    proof (cases z)
      case True
      with assms(3) args False z have "t1 = setCell t u worstLt"
        by (auto simp: visitEval_def Let_def)
      with same show ?thesis by (simp add: setCell_def)
    next
      case nz: False
      with assms(3) args False z obtain p1 p2 g c m where
        cc: "computeConstValue rw (fn t) (vals (fn t) u) [p1, p2] = Inr (g, c, m)"
        and t1: "t1 = setCell (t\<lparr>fn := g\<rparr>) u (if m then \<lparr>tag = constant_t, val = Some c\<rparr> else worstLt)"
        by (auto simp: visitEval_def Let_def split: sum.splits option.splits if_splits)
      from sameStruct_computeConstValue [OF assms(1,2) cc] have "sameStruct fu g" .
      with t1 show ?thesis by (auto simp: setCell_def)
    qed
  qed
qed

lemma visitValue_body_shape:
  assumes "rewriterLocal rw" and "sameStruct fu (fn t)" and "visitValue_body rw t u = Inr t1"
  shows "\<exists>c g. t1 = t\<lparr>fn := g, latticeCells := (latticeCells t)(u \<mapsto> c)\<rparr> \<and> sameStruct fu g
          \<and> (Op (vals (fn t) u) = OpPhi \<longrightarrow>
               c = meet (map (\<lambda>(a, p). getLatticeCell t a)
                   (filter (\<lambda>(a, p). (eb p, Block (vals (fn t) u)) \<in> visited t)
                      (zip (Args (vals (fn t) u)) (Preds (blks (fn t) (Block (vals (fn t) u))))))))"
proof -
  have same: "\<exists>c g. t\<lparr>latticeCells := (latticeCells t)(u \<mapsto> d)\<rparr>
                  = t\<lparr>fn := g, latticeCells := (latticeCells t)(u \<mapsto> c)\<rparr> \<and> sameStruct fu g
          \<and> (Op (vals (fn t) u) = OpPhi \<longrightarrow>
               c = meet (map (\<lambda>(a, p). getLatticeCell t a)
                   (filter (\<lambda>(a, p). (eb p, Block (vals (fn t) u)) \<in> visited t)
                      (zip (Args (vals (fn t) u)) (Preds (blks (fn t) (Block (vals (fn t) u))))))))"
    if "Op (vals (fn t) u) = OpPhi \<longrightarrow>
               d = meet (map (\<lambda>(a, p). getLatticeCell t a)
                   (filter (\<lambda>(a, p). (eb p, Block (vals (fn t) u)) \<in> visited t)
                      (zip (Args (vals (fn t) u)) (Preds (blks (fn t) (Block (vals (fn t) u)))))))" for d
    using assms(2) that by (intro exI [of _ d] exI [of _ "fn t"]) simp
  consider (const) "isConstOp (Op (vals (fn t) u))"
    | (copy) "\<not> isConstOp (Op (vals (fn t) u))" "Op (vals (fn t) u) = OpCopy"
    | (phi) "\<not> isConstOp (Op (vals (fn t) u))" "Op (vals (fn t) u) = OpPhi"
    | (eval) "\<not> isConstOp (Op (vals (fn t) u))" "Op (vals (fn t) u) \<noteq> OpCopy"
        "Op (vals (fn t) u) \<noteq> OpPhi" "isEvalOp (Op (vals (fn t) u))"
    | (other) "\<not> isConstOp (Op (vals (fn t) u))" "Op (vals (fn t) u) \<noteq> OpCopy"
        "Op (vals (fn t) u) \<noteq> OpPhi" "\<not> isEvalOp (Op (vals (fn t) u))"
    by blast
  then show ?thesis
  proof cases
    case const
    then have "Op (vals (fn t) u) \<noteq> OpPhi" by (auto simp: isConstOp_def)
    moreover from const assms(3) have "t1 = setCell t u \<lparr>tag = constant_t, val = Some u\<rparr>"
      by (simp add: visitValue_body_def)
    ultimately show ?thesis using same by (simp add: setCell_def)
  next
    case copy
    with assms(3) obtain a as where "t1 = setCell t u (getLatticeCell t a)"
      by (auto simp: visitValue_body_def split: list.splits)
    with copy(2) same show ?thesis by (simp add: setCell_def)
  next
    case phi
    with assms(3) have vp: "visitPhi t u = Inr t1" by (simp add: visitValue_body_def)
    then obtain L where L: "visitPhi_loop t (Block (vals (fn t) u)) (Args (vals (fn t) u))
          (Preds (blks (fn t) (Block (vals (fn t) u)))) [] = Inr L"
      and t1: "t1 = t\<lparr>latticeCells := (latticeCells t)(u \<mapsto> meet L)\<rparr>"
      by (auto simp: visitPhi_def Let_def split: sum.splits)
    from visitPhi_loop_eq [OF L] t1 same show ?thesis by simp
  next
    case eval
    with assms(3) have "visitEval rw t u = Inr t1" by (simp add: visitValue_body_def)
    from visitEval_shape [OF assms(1,2) this] eval(3) show ?thesis by blast
  next
    case other
    with assms(3) have "t1 = setCell t u worstLt" by (simp add: visitValue_body_def)
    with other(3) same show ?thesis by (simp add: setCell_def)
  qed
qed


text \<open>Replacing cells of the list by the meet of the list does not change the meet.\<close>

lemma meet_absorb:
  assumes "\<forall>z\<in>set zs. g' z = g z \<or> g' z = meet (map g zs)"
  shows "meet (map g' zs) = meet (map g zs)"
proof -
  let ?T = "\<lparr>tag = top_t, val = None\<rparr>" and ?B = "\<lparr>tag = bottom_t, val = None\<rparr>"
  let ?L = "map g zs" and ?L' = "map g' zs"
  have nontop: "tag x = constant_t" if "tag x \<noteq> top_t" "tag x \<noteq> bottom_t" for x :: lattice
    using that by (cases "tag x") simp_all
  show ?thesis
  proof (cases "\<exists>x\<in>set ?L. tag x = bottom_t")
    case True
    then have c: "meet ?L = ?B" unfolding meet_def by (rule meet_loop_top_bottom)
    from True obtain z where z: "z \<in> set zs" "tag (g z) = bottom_t" by auto
    with assms c have "tag (g' z) = bottom_t" by auto
    with z(1) have "\<exists>x\<in>set ?L'. tag x = bottom_t" by auto
    then have "meet ?L' = ?B" unfolding meet_def by (rule meet_loop_top_bottom)
    with c show ?thesis by simp
  next
    case nb: False
    show ?thesis
    proof (cases "\<forall>x\<in>set ?L. tag x = top_t")
      case True
      then have c: "meet ?L = ?T" unfolding meet_def by (rule meet_loop_top_all_top)
      have "\<forall>x\<in>set ?L'. tag x = top_t"
      proof
        fix x assume "x \<in> set ?L'"
        then obtain z where z: "z \<in> set zs" "x = g' z" by auto
        with assms have "x = g z \<or> x = ?T" using c by auto
        with True z(1) show "tag x = top_t" by auto
      qed
      then have "meet ?L' = ?T" unfolding meet_def by (rule meet_loop_top_all_top)
      with c show ?thesis by simp
    next
      case False
      then obtain z where z: "z \<in> set zs" "tag (g z) \<noteq> top_t" by auto
      with nb have zc: "tag (g z) = constant_t" by (intro nontop) auto
      show ?thesis
      proof (cases "\<forall>y\<in>set ?L. tag y = constant_t \<longrightarrow> val y = val (g z)")
        case True
        have c: "meet ?L = \<lparr>tag = constant_t, val = val (g z)\<rparr>"
          unfolding meet_def
        proof (rule meet_loop_top_agree)
          show "g z \<in> set ?L" using z(1) by simp
          show "tag (g z) = constant_t" by (rule zc)
          show "\<forall>y\<in>set ?L. tag y \<noteq> bottom_t" using nb by blast
          show "\<forall>y\<in>set ?L. tag y = constant_t \<longrightarrow> val y = val (g z)" by (rule True)
        qed
        have each: "x = \<lparr>tag = constant_t, val = val (g z)\<rparr> \<or> x \<in> set ?L" if "x \<in> set ?L'" for x
        proof -
          from that obtain w where w: "w \<in> set zs" "x = g' w" by auto
          with assms c show ?thesis by auto
        qed
        have "meet ?L' = \<lparr>tag = constant_t, val = val (g' z)\<rparr>"
          unfolding meet_def
        proof (rule meet_loop_top_agree)
          show "g' z \<in> set ?L'" using z(1) by simp
          from assms z(1) c zc show "tag (g' z) = constant_t" by auto
          show "\<forall>y\<in>set ?L'. tag y \<noteq> bottom_t"
          proof
            fix y assume "y \<in> set ?L'"
            from each [OF this] nb show "tag y \<noteq> bottom_t" by auto
          qed
          have vz: "val (g' z) = val (g z)" using assms z(1) c by auto
          show "\<forall>y\<in>set ?L'. tag y = constant_t \<longrightarrow> val y = val (g' z)"
          proof (intro ballI impI)
            fix y assume "y \<in> set ?L'" and "tag y = constant_t"
            with each [of y] True show "val y = val (g' z)" unfolding vz by auto
          qed
        qed
        moreover have "val (g' z) = val (g z)" using assms z(1) c by auto
        ultimately show ?thesis using c by simp
      next
        case False
        then obtain y where y: "y \<in> set zs" "tag (g y) = constant_t" "val (g y) \<noteq> val (g z)" by auto
        have c: "meet ?L = ?B"
          unfolding meet_def
          by (rule meet_loop_top_conflict [of "g y" _ "g z"]) (use y z(1) zc in auto)
        show ?thesis
        proof (cases "g' y = g y \<and> g' z = g z")
          case True
          have "g' y \<in> set ?L'" "g' z \<in> set ?L'" using y(1) z(1) by simp_all
          moreover have "tag (g' y) = constant_t" "tag (g' z) = constant_t" "val (g' y) \<noteq> val (g' z)"
            using y zc True by simp_all
          ultimately have "meet ?L' = ?B"
            unfolding meet_def by (rule meet_loop_top_conflict)
          with c show ?thesis by simp
        next
          case False
          with assms y(1) z(1) c have "g' y = ?B \<or> g' z = ?B" by auto
          with y(1) z(1) have "\<exists>x\<in>set ?L'. tag x = bottom_t" by force
          then have "meet ?L' = ?B" unfolding meet_def by (rule meet_loop_top_bottom)
          with c show ?thesis by simp
        qed
      qed
    qed
  qed
qed


lemma visitedArgCells_cong:
  assumes "visited t' = visited t"
    and "\<forall>a\<in>set (Args (vals fu v)). getLatticeCell t' a = getLatticeCell t a"
  shows "visitedArgCells fu t' v = visitedArgCells fu t v"
  unfolding visitedArgCells_def assms(1)
  by (rule map_cong [OF refl]) (use assms(2) in \<open>auto dest: set_zip_leftD\<close>)

lemma lattice_eqI: "tag (c :: lattice) = tag d \<Longrightarrow> val c = val d \<Longrightarrow> c = d"
  by simp

text \<open>A visit of \<open>u\<close> installs the meet for a phi \<open>u\<close> and wakes the phis that use \<open>u\<close>.\<close>

lemma visitValue_phisOK:
  assumes rl: "rewriterLocal rw" and wf: "wfFunc fu" and ss: "sameStruct fu (fn t)"
    and du: "duComplete fu t" and ok: "phisOK fu t (insert u P)"
    and vv: "visitValue rw t u = Inr t'"
  shows "sameStruct fu (fn t') \<and> duComplete fu t' \<and> visited t' = visited t \<and> phisOK fu t' P"
proof -
  from vv obtain t1 where body: "visitValue_body rw t u = Inr t1"
    by (auto simp: visitValue_def Let_def split: sum.splits)
  from visitValue_body_shape [OF rl ss body] obtain c g where
    t1: "t1 = t\<lparr>fn := g, latticeCells := (latticeCells t)(u \<mapsto> c)\<rparr>" and g: "sameStruct fu g"
    and phi: "Op (vals (fn t) u) = OpPhi \<longrightarrow>
               c = meet (map (\<lambda>(a, p). getLatticeCell t a)
                   (filter (\<lambda>(a, p). (eb p, Block (vals (fn t) u)) \<in> visited t)
                      (zip (Args (vals (fn t) u)) (Preds (blks (fn t) (Block (vals (fn t) u)))))))"
    by blast
  define changed where
    "changed \<longleftrightarrow> tag c \<noteq> tag (getLatticeCell t u) \<or> val c \<noteq> val (getLatticeCell t u)"
  have cell1: "getLatticeCell t1 x = (if x = u then c else getLatticeCell t x)" for x
    by (simp add: t1 getLatticeCell_def)
  have rest: "if changed then addUses t1 u = Inr t' else t' = t1"
    using vv body by (auto simp: visitValue_def Let_def changed_def cell1)
  have fr: "fn t' = g \<and> visited t' = visited t \<and> defUse t' = defUse t
      \<and> latticeCells t' = latticeCells t1
      \<and> uses t' = uses t @ (if changed then filter (\<lambda>use. u \<noteq> use) (lookupList (defUse t) u) else [])"
  proof (cases changed)
    case True
    with rest have "addUses t1 u = Inr t'" by simp
    from addUses_frame [OF this] obtain es where
      "t' = t1\<lparr>uses := uses t1 @ filter (\<lambda>use. u \<noteq> use) (lookupList (defUse t1) u),
               edges := edges t1 @ es\<rparr>" by blast
    with True show ?thesis by (simp add: t1)
  next
    case False
    with rest show ?thesis by (simp add: t1)
  qed
  have cell: "getLatticeCell t' x = (if x = u then c else getLatticeCell t x)" for x
    using fr cell1 [of x] by (simp add: getLatticeCell_def)
  have unchanged: "getLatticeCell t' x = getLatticeCell t x" if "\<not> changed" for x
  proof (cases "x = u")
    case True
    from that have "c = getLatticeCell t u" unfolding changed_def by (intro lattice_eqI) simp_all
    with True cell [of x] show ?thesis by simp
  next
    case False
    with cell [of x] show ?thesis by simp
  qed
  have du': "duComplete fu t'" using du fr by (simp add: duComplete_def)
  have "getLatticeCell t' v = meet (visitedArgCells fu t' v) \<or> v \<in> set (uses t') \<or> v \<in> P"
    if v: "isPhiOf fu v" for v
  proof -
    from v obtain blk where blk: "blk \<in> set (Blocks fu)" "v \<in> set (Values (blks fu blk))"
      and op: "Op (vals fu v) = OpPhi" by (auto simp: isPhiOf_def)
    from wf blk have lt: "v < nextVid fu" by (auto simp: wfFunc_def)
    from ok v consider (pending) "v \<in> set (uses t)" | (inP) "v \<in> P" | (self) "v = u"
      | (settled) "v \<noteq> u" "getLatticeCell t v = meet (visitedArgCells fu t v)"
      by (auto simp: phisOK_def)
    then show ?thesis
    proof cases
      case pending
      with fr show ?thesis by simp
    next
      case inP
      then show ?thesis by simp
    next
      case self
      from ss lt have st: "Op (vals (fn t) v) = Op (vals fu v)" "Args (vals (fn t) v) = Args (vals fu v)"
        "Block (vals (fn t) v) = Block (vals fu v)" "blks (fn t) = blks fu"
        by (simp_all add: sameStruct_def)
      from phi self op st have c: "c = meet (visitedArgCells fu t u)"
        by (simp add: visitedArgCells_def)
      let ?zs = "filter (\<lambda>(a, p). (eb p, Block (vals fu u)) \<in> visited t)
          (zip (Args (vals fu u)) (Preds (blks fu (Block (vals fu u)))))"
      have "meet (map (\<lambda>(a, p). getLatticeCell t' a) ?zs) = meet (map (\<lambda>(a, p). getLatticeCell t a) ?zs)"
      proof (rule meet_absorb, rule ballI)
        fix z assume "z \<in> set ?zs"
        obtain a p where z: "z = (a, p)" by (cases z)
        show "(case z of (a, p) \<Rightarrow> getLatticeCell t' a) = (case z of (a, p) \<Rightarrow> getLatticeCell t a)
            \<or> (case z of (a, p) \<Rightarrow> getLatticeCell t' a) = meet (map (\<lambda>(a, p). getLatticeCell t a) ?zs)"
          using cell [of a] c by (simp add: z visitedArgCells_def)
      qed
      then have "meet (visitedArgCells fu t' u) = c"
        using fr c by (simp add: visitedArgCells_def)
      with cell [of u] self show ?thesis by simp
    next
      case settled
      show ?thesis
      proof (cases "changed \<and> u \<in> set (Args (vals fu v))")
        case True
        with du blk have "v \<in> set (lookupList (defUse t) u)" by (auto simp: duComplete_def)
        with True settled(1) fr show ?thesis by auto
      next
        case False
        have "\<forall>a\<in>set (Args (vals fu v)). getLatticeCell t' a = getLatticeCell t a"
        proof
          fix a assume "a \<in> set (Args (vals fu v))"
          with False have "\<not> changed \<or> a \<noteq> u" by auto
          with unchanged [of a] cell [of a] show "getLatticeCell t' a = getLatticeCell t a" by auto
        qed
        with fr have "visitedArgCells fu t' v = visitedArgCells fu t v"
          by (intro visitedArgCells_cong) simp_all
        with settled cell [of v] show ?thesis by simp
      qed
    qed
  qed
  then have "phisOK fu t' P" unfolding phisOK_def by blast
  with g fr du' show ?thesis by simp
qed


lemma not_phi_of:
  assumes "wfFunc fu" and "sameStruct fu g" and "Op (vals g v) \<noteq> OpPhi"
  shows "\<not> isPhiOf fu v"
proof
  assume "isPhiOf fu v"
  then obtain blk where "blk \<in> set (Blocks fu)" "v \<in> set (Values (blks fu blk))"
    and op: "Op (vals fu v) = OpPhi" by (auto simp: isPhiOf_def)
  with assms(1) have "v < nextVid fu" by (auto simp: wfFunc_def)
  with assms(2) have "Op (vals g v) = Op (vals fu v)" by (simp add: sameStruct_def)
  with op assms(3) show False by simp
qed

lemma phisOK_mono: "phisOK fu t P \<Longrightarrow> P \<subseteq> Q \<Longrightarrow> phisOK fu t Q"
  unfolding phisOK_def by blast

lemma visitDest_phisOK:
  assumes rl: "rewriterLocal rw" and wf: "wfFunc fu"
  shows "visitDest rw dv t vs = Inr t' \<Longrightarrow> sameStruct fu (fn t) \<Longrightarrow> duComplete fu t \<Longrightarrow>
         phisOK fu t (set vs) \<Longrightarrow>
         sameStruct fu (fn t') \<and> duComplete fu t' \<and> visited t' = visited t \<and> phisOK fu t' {}"
proof (induction vs arbitrary: t)
  case Nil
  then show ?case by simp
next
  case (Cons v vs)
  show ?case
  proof (cases "Op (vals (fn t) v) = OpPhi \<or> \<not> dv")
    case True
    with Cons.prems(1) obtain t1 where vv: "visitValue rw t v = Inr t1"
      and r: "visitDest rw dv t1 vs = Inr t'"
      by (auto split: sum.splits)
    from Cons.prems(4) have "phisOK fu t (insert v (set vs))" by simp
    from visitValue_phisOK [OF rl wf Cons.prems(2,3) this vv]
    have 1: "sameStruct fu (fn t1)" "duComplete fu t1" "visited t1 = visited t" "phisOK fu t1 (set vs)"
      by simp_all
    from Cons.IH [OF r 1(1,2,4)] 1(3) show ?thesis by simp
  next
    case False
    with Cons.prems(1) have r: "visitDest rw dv t vs = Inr t'" by simp
    from False have "\<not> isPhiOf fu v"
      by (intro not_phi_of [OF wf Cons.prems(2)]) simp
    with Cons.prems(4) have "phisOK fu t (set vs)"
      unfolding phisOK_def by auto
    from Cons.IH [OF r Cons.prems(2,3) this] show ?thesis .
  qed
qed

lemma phisOK_edges: "phisOK fu (t\<lparr>edges := es\<rparr>) P = phisOK fu t P"
  by (simp add: phisOK_def visitedArgCells_def getLatticeCell_def)

lemma duComplete_edges: "duComplete fu (t\<lparr>edges := es\<rparr>) = duComplete fu t"
  by (simp add: duComplete_def)

lemma visitEdge_phisOK:
  assumes rl: "rewriterLocal rw" and wf: "wfFunc fu" and ss: "sameStruct fu (fn t)"
    and du: "duComplete fu t" and ok: "phisOK fu t {}" and ve: "visitEdge rw t e = Inr t'"
  shows "sameStruct fu (fn t') \<and> duComplete fu t' \<and> phisOK fu t' {}"
proof (cases "isVisited t e")
  case True
  with ve have "t' = t" by (simp add: visitEdge_def)
  with ss du ok show ?thesis by simp
next
  case False
  define dest where "dest = snd e"
  define dv where "dv \<longleftrightarrow> (\<exists>visitedEdge\<in>visited t. snd visitedEdge = dest)"
  define t1 where "t1 = t\<lparr>visited := insert e (visited t)\<rparr>"
  from ve False obtain t2 where vd: "visitDest rw dv t1 (Values (blks (fn t1) dest)) = Inr t2"
    and pr: "if \<not> dv then propagate t2 dest = Inr t' else t' = t2"
    by (auto simp: visitEdge_def Let_def dest_def dv_def t1_def split: sum.splits if_splits)
  have ss1: "sameStruct fu (fn t1)" using ss by (simp add: t1_def)
  have du1: "duComplete fu t1" using du by (simp add: t1_def duComplete_def)
  have ok1: "phisOK fu t1 (set (Values (blks (fn t1) dest)))"
    unfolding phisOK_def
  proof (intro allI impI)
    fix v assume v: "isPhiOf fu v"
    then obtain blk where blk: "blk \<in> set (Blocks fu)" "v \<in> set (Values (blks fu blk))"
      by (auto simp: isPhiOf_def)
    with wf have bv: "Block (vals fu v) = blk" by (auto simp: wfFunc_def)
    show "v \<in> set (uses t1) \<or> v \<in> set (Values (blks (fn t1) dest))
        \<or> getLatticeCell t1 v = meet (visitedArgCells fu t1 v)"
    proof (cases "blk = dest")
      case True
      with blk(2) ss have "v \<in> set (Values (blks (fn t1) dest))"
        by (simp add: t1_def sameStruct_def)
      then show ?thesis by simp
    next
      case False
      with bv have "(x, Block (vals fu v)) \<in> insert e (visited t) \<longleftrightarrow> (x, Block (vals fu v)) \<in> visited t" for x
        by (auto simp: dest_def)
      then have "visitedArgCells fu t1 v = visitedArgCells fu t v"
        by (simp add: visitedArgCells_def t1_def getLatticeCell_def)
      moreover have "getLatticeCell t1 v = getLatticeCell t v"
        by (simp add: t1_def getLatticeCell_def)
      moreover have "uses t1 = uses t" by (simp add: t1_def)
      moreover from ok v have "v \<in> set (uses t) \<or> getLatticeCell t v = meet (visitedArgCells fu t v)"
        by (simp add: phisOK_def)
      ultimately show ?thesis by auto
    qed
  qed
  from visitDest_phisOK [OF rl wf vd ss1 du1 ok1]
  have 2: "sameStruct fu (fn t2)" "duComplete fu t2" "phisOK fu t2 {}" by simp_all
  show ?thesis
  proof (cases dv)
    case True
    with pr 2 show ?thesis by simp
  next
    case False
    with pr have "propagate t2 dest = Inr t'" by simp
    from propagate_frame [OF this] obtain es where "t' = t2\<lparr>edges := edges t2 @ es\<rparr>" by blast
    with 2 show ?thesis by (simp add: phisOK_edges duComplete_edges)
  qed
qed

lemma sccp_step_phisOK:
  assumes rl: "rewriterLocal rw" and wf: "wfFunc fu" and ss: "sameStruct fu (fn t)"
    and du: "duComplete fu t" and ok: "phisOK fu t {}" and st: "sccp_step rw t = Inr t'"
  shows "sameStruct fu (fn t') \<and> duComplete fu t' \<and> phisOK fu t' {}"
proof (cases "edges t")
  case (Cons e es)
  with st have ve: "visitEdge rw (t\<lparr>edges := es\<rparr>) e = Inr t'" by (simp add: sccp_step_def)
  from ss du ok show ?thesis
    by (intro visitEdge_phisOK [OF rl wf _ _ _ ve]) (simp_all add: phisOK_edges duComplete_edges)
next
  case Nil
  show ?thesis
  proof (cases "uses t")
    case Nil': Nil
    with Nil st have "t' = t" by (simp add: sccp_step_def)
    with ss du ok show ?thesis by simp
  next
    case (Cons u us)
    with Nil st have vv: "visitValue rw (t\<lparr>uses := us\<rparr>) u = Inr t'" by (simp add: sccp_step_def)
    have "phisOK fu (t\<lparr>uses := us\<rparr>) (insert u {})"
      using ok Cons by (auto simp: phisOK_def visitedArgCells_def getLatticeCell_def)
    moreover have "sameStruct fu (fn (t\<lparr>uses := us\<rparr>))" using ss by simp
    moreover have "duComplete fu (t\<lparr>uses := us\<rparr>)" using du by (simp add: duComplete_def)
    ultimately show ?thesis
      using visitValue_phisOK [OF rl wf _ _ _ vv] by simp
  qed
qed

lemma sccp_loop_phisOK:
  assumes rl: "rewriterLocal rw" and wf: "wfFunc fu"
  shows "sccp_loop rw n t = Some (Inr t') \<Longrightarrow> sameStruct fu (fn t) \<Longrightarrow> duComplete fu t \<Longrightarrow>
         phisOK fu t {} \<Longrightarrow>
         sameStruct fu (fn t') \<and> phisOK fu t' {} \<and> edges t' = [] \<and> uses t' = []"
proof (induction n arbitrary: t)
  case 0
  then show ?case by (auto split: if_splits)
next
  case (Suc n)
  show ?case
  proof (cases "edges t = [] \<and> uses t = []")
    case True
    with Suc.prems show ?thesis by simp
  next
    case False
    with Suc.prems(1) obtain t1 where st: "sccp_step rw t = Inr t1"
      and r: "sccp_loop rw n t1 = Some (Inr t')"
      by (auto split: sum.splits)
    from sccp_step_phisOK [OF rl wf Suc.prems(2,3,4) st]
    have "sameStruct fu (fn t1)" "duComplete fu t1" "phisOK fu t1 {}" by simp_all
    from Suc.IH [OF r this] show ?thesis .
  qed
qed


lemma lookupList_appendAt:
  "lookupList (appendAt m k x) k' = (if k' = k then lookupList m k @ [x] else lookupList m k')"
  by (simp add: lookupList_def appendAt_def)

lemma set_lookupList_foldl_appendAt:
  "set (lookupList (foldl (\<lambda>m arg. appendAt m arg v) du as) a) =
     set (lookupList du a) \<union> (if a \<in> set as then {v} else {})"
  by (induction as arbitrary: du) (auto simp: lookupList_appendAt)

lemma set_lookupList_buildValue:
  "set (lookupList (buildValue fu du v) a) =
     set (lookupList du a) \<union> (if a \<in> set (Args (vals fu v)) then {v} else {})"
  by (simp add: buildValue_def set_lookupList_foldl_appendAt)

lemma set_lookupList_foldl_buildValue:
  "set (lookupList (foldl (buildValue fu) du vs) a) =
     set (lookupList du a) \<union> {w \<in> set vs. a \<in> set (Args (vals fu w))}"
  by (induction vs arbitrary: du) (auto simp: set_lookupList_buildValue)

lemma buildBlock_fields:
  "fn (buildBlock t blk) = fn t \<and> edges (buildBlock t blk) = edges t
   \<and> uses (buildBlock t blk) = uses t \<and> visited (buildBlock t blk) = visited t
   \<and> latticeCells (buildBlock t blk) = latticeCells t
   \<and> set (lookupList (defUse (buildBlock t blk)) a) =
       set (lookupList (defUse t) a) \<union> {w \<in> set (Values (blks (fn t) blk)). a \<in> set (Args (vals (fn t) w))}"
  by (simp add: buildBlock_def set_lookupList_foldl_buildValue)

lemma foldl_buildBlock_fields:
  "fn (foldl buildBlock t bs) = fn t \<and> edges (foldl buildBlock t bs) = edges t
   \<and> uses (foldl buildBlock t bs) = uses t \<and> visited (foldl buildBlock t bs) = visited t
   \<and> latticeCells (foldl buildBlock t bs) = latticeCells t
   \<and> (\<forall>a. set (lookupList (defUse (foldl buildBlock t bs)) a) =
         set (lookupList (defUse t) a) \<union>
         {w. \<exists>blk\<in>set bs. w \<in> set (Values (blks (fn t) blk)) \<and> a \<in> set (Args (vals (fn t) w))})"
proof (induction bs arbitrary: t)
  case Nil
  show ?case by simp
next
  case (Cons blk bs)
  note f = buildBlock_fields [of t blk]
  from Cons [of "buildBlock t blk"] f show ?case
    by (simp add: buildBlock_fields) blast
qed

lemma verifyDefUses_same: "verifyDefUses t ks = Inr t' \<Longrightarrow> t' = t"
  by (simp add: verifyDefUses_eq split: if_splits)

lemma buildDefUses_initial:
  assumes "buildDefUses ks (initial fu) = Inr t0"
  shows "fn t0 = fu \<and> uses t0 = [] \<and> visited t0 = {} \<and> latticeCells t0 = Map.empty
       \<and> duComplete fu t0"
proof -
  from assms have t0: "t0 = foldl buildBlock (initial fu) (Blocks fu)"
    unfolding buildDefUses_def by (auto dest: verifyDefUses_same simp: initial_def)
  note f = foldl_buildBlock_fields [of "initial fu" "Blocks fu"]
  have fn: "fn (initial fu) = fu" by (simp add: initial_def)
  from f have "duComplete fu t0"
    unfolding duComplete_def t0 fn by blast
  with f show ?thesis unfolding t0 by (simp add: initial_def)
qed


text \<open>
  C2. When the loop has ended with both worklists empty, the cell of every phi \<open>v\<close> of
  the function is the meet of the cells of exactly those arguments \<open>Args[i]\<close> whose
  predecessor edge \<open>(Block.Preds[i].b, Block)\<close> is visited; the arguments on unvisited
  edges are left out. So a phi whose visited arguments are all Top is Top, a phi whose
  visited arguments are Const(k) and Top is Const(k), and a phi with two different Const
  arguments on visited edges is Bottom. (The function is well formed, and the rewriter
  touches only the probe it is given.)
\<close>

theorem phi_cell_is_meet_of_visited_args:
  assumes "rewriterLocal rw" and "wfFunc fu"
    and "buildDefUses ks (initial fu) = Inr t0" and "sccp_loop rw n t0 = Some (Inr t)"
    and "blk \<in> set (Blocks fu)" and "v \<in> set (Values (blks fu blk))"
    and "Op (vals fu v) = OpPhi"
  shows "getLatticeCell t v = meet (visitedArgCells fu t v)
       \<and> ((\<forall>c\<in>set (visitedArgCells fu t v). tag c = top_t) \<longrightarrow>
            getLatticeCell t v = \<lparr>tag = top_t, val = None\<rparr>)
       \<and> (\<forall>k. (\<exists>c\<in>set (visitedArgCells fu t v). c = \<lparr>tag = constant_t, val = Some k\<rparr>)
              \<and> (\<forall>c\<in>set (visitedArgCells fu t v). tag c = top_t \<or> c = \<lparr>tag = constant_t, val = Some k\<rparr>)
              \<longrightarrow> getLatticeCell t v = \<lparr>tag = constant_t, val = Some k\<rparr>)
       \<and> ((\<exists>c\<in>set (visitedArgCells fu t v). \<exists>d\<in>set (visitedArgCells fu t v).
               tag c = constant_t \<and> tag d = constant_t \<and> val c \<noteq> val d) \<longrightarrow>
            getLatticeCell t v = \<lparr>tag = bottom_t, val = None\<rparr>)
       \<and> edges t = [] \<and> uses t = []
       \<and> Args (vals (fn t) v) = Args (vals fu v) \<and> Block (vals (fn t) v) = Block (vals fu v)
       \<and> blks (fn t) = blks fu"
proof -
  let ?L = "visitedArgCells fu t v"
  from buildDefUses_initial [OF assms(3)]
  have i: "fn t0 = fu" "uses t0 = []" "visited t0 = {}" "latticeCells t0 = Map.empty"
    "duComplete fu t0" by simp_all
  have ss0: "sameStruct fu (fn t0)" by (simp add: i(1) sameStruct_refl)
  have ok0: "phisOK fu t0 {}"
    by (simp add: phisOK_def visitedArgCells_def getLatticeCell_def i meet_def)
  from sccp_loop_phisOK [OF assms(1,2,4) ss0 i(5) ok0]
  have fin: "sameStruct fu (fn t)" "phisOK fu t {}" "edges t = []" "uses t = []" by simp_all
  have phi: "isPhiOf fu v" using assms(5-7) by (auto simp: isPhiOf_def)
  with fin(2,4) have eq: "getLatticeCell t v = meet ?L" by (simp add: phisOK_def)
  from assms(2,5,6) have "v < nextVid fu" by (auto simp: wfFunc_def)
  with fin(1) have st: "Args (vals (fn t) v) = Args (vals fu v) \<and> Block (vals (fn t) v) = Block (vals fu v)
       \<and> blks (fn t) = blks fu"
    by (simp add: sameStruct_def)
  have alltop: "meet ?L = \<lparr>tag = top_t, val = None\<rparr>" if "\<forall>c\<in>set ?L. tag c = top_t"
    using that unfolding meet_def by (rule meet_loop_top_all_top)
  have mix: "meet ?L = \<lparr>tag = constant_t, val = Some k\<rparr>"
    if "\<exists>c\<in>set ?L. c = \<lparr>tag = constant_t, val = Some k\<rparr>"
      and "\<forall>c\<in>set ?L. tag c = top_t \<or> c = \<lparr>tag = constant_t, val = Some k\<rparr>" for k
  proof -
    let ?c = "\<lparr>tag = constant_t, val = Some k\<rparr>"
    have "meet_loop \<lparr>tag = top_t, val = None\<rparr> ?L = \<lparr>tag = constant_t, val = val ?c\<rparr>"
    proof (rule meet_loop_top_agree)
      show "?c \<in> set ?L" using that(1) by simp
      show "tag ?c = constant_t" by simp
      show "\<forall>y\<in>set ?L. tag y \<noteq> bottom_t" using that(2) by auto
      show "\<forall>y\<in>set ?L. tag y = constant_t \<longrightarrow> val y = val ?c" using that(2) by auto
    qed
    then show ?thesis by (simp add: meet_def)
  qed
  have two: "meet ?L = \<lparr>tag = bottom_t, val = None\<rparr>"
    if "\<exists>c\<in>set ?L. \<exists>d\<in>set ?L. tag c = constant_t \<and> tag d = constant_t \<and> val c \<noteq> val d"
  proof -
    from that obtain c d where "c \<in> set ?L" "d \<in> set ?L" "tag c = constant_t" "tag d = constant_t"
      "val c \<noteq> val d" by blast
    then show ?thesis unfolding meet_def by (rule meet_loop_top_conflict)
  qed
  from eq alltop mix two fin(3,4) st show ?thesis by (simp only:) blast
qed

lemma rewriterLocal_rewriteAdd32: "rewriterLocal rewriteAdd32"
  unfolding rewriterLocal_def rewriteAdd32_def
  by (auto simp: Let_def updValue_def reset_def split: list.splits)

lemma wfFunc_branchFunc: "wfFunc branchFunc"
  by (simp add: wfFunc_def branchFunc_def mkBlock_def mkValue_def)

theorem phi_cell_is_meet_of_visited_args_witness:
  "getLatticeCell branchFixpoint 6 = meet (visitedArgCells branchFunc branchFixpoint 6)"
proof -
  have "case buildDefUses [2, 4, 5] (initial branchFunc) of Inl e \<Rightarrow> False | Inr t0 \<Rightarrow> True"
    by code_simp
  then obtain t0 where b: "buildDefUses [2, 4, 5] (initial branchFunc) = Inr t0"
    by (cases "buildDefUses [2, 4, 5] (initial branchFunc)") simp_all
  have "case sccp_loop rewriteAdd32 20 (projr (buildDefUses [2, 4, 5] (initial branchFunc))) of
          Some (Inr t) \<Rightarrow> True | _ \<Rightarrow> False"
    by code_simp
  then have "case sccp_loop rewriteAdd32 20 t0 of Some (Inr t) \<Rightarrow> True | _ \<Rightarrow> False"
    by (simp add: b)
  then obtain t where l: "sccp_loop rewriteAdd32 20 t0 = Some (Inr t)"
    by (cases "sccp_loop rewriteAdd32 20 t0"; cases "the (sccp_loop rewriteAdd32 20 t0)") simp_all
  from b l have t: "branchFixpoint = t" by (simp add: branchFixpoint_def)
  have 5: "2 \<in> set (Blocks branchFunc)" and 6: "6 \<in> set (Values (blks branchFunc 2))"
    and 7: "Op (vals branchFunc 6) = OpPhi"
    by (simp_all add: branchFunc_def mkBlock_def mkValue_def)
  from phi_cell_is_meet_of_visited_args
    [OF rewriterLocal_rewriteAdd32 wfFunc_branchFunc b l 5 6 7]
  show ?thesis unfolding t by (rule conjunct1)
qed

subsection \<open>The index of the control values\<close>

lemma set_lookupList_defBlock_buildBlock:
  "set (lookupList (defBlock (buildBlock t blk)) u) =
     set (lookupList (defBlock t) u) \<union> (if u \<in> set (Controls (blks (fn t) blk)) then {blk} else {})"
  by (simp add: buildBlock_def set_lookupList_foldl_appendAt)

lemma set_lookupList_defBlock_foldl:
  "set (lookupList (defBlock (foldl buildBlock t bs)) u) =
     set (lookupList (defBlock t) u) \<union> {blk \<in> set bs. u \<in> set (Controls (blks (fn t) blk))}"
proof (induction bs arbitrary: t)
  case Nil
  show ?case by simp
next
  case (Cons blk bs)
  from Cons [of "buildBlock t blk"] show ?case
    by (auto simp: set_lookupList_defBlock_buildBlock fn_buildBlock)
qed

text \<open>After \<^verbatim>\<open>buildDefUses\<close>, \<open>defBlock[u]\<close> lists the blocks of the function controlled by \<open>u\<close>.\<close>

lemma buildDefUses_defBlock:
  assumes "buildDefUses ks (initial fu) = Inr t0"
  shows "set (lookupList (defBlock t0) u) = {blk \<in> set (Blocks fu). u \<in> set (Controls (blks fu blk))}"
proof -
  from assms have t0: "t0 = foldl buildBlock (initial fu) (Blocks fu)"
    unfolding buildDefUses_def by (auto dest: verifyDefUses_same simp: initial_def)
  show ?thesis
    unfolding t0 set_lookupList_defBlock_foldl by (simp add: initial_def lookupList_def)
qed

subsection \<open>What the loop leaves as it is\<close>

lemma visitValue_static:
  assumes "rewriterLocal rw" and "sameStruct fu (fn t)" and "visitValue rw t u = Inr t'"
  shows "sameStruct fu (fn t') \<and> defBlock t' = defBlock t"
proof -
  from assms(3) obtain t1 where body: "visitValue_body rw t u = Inr t1"
    and rest: "t' = t1 \<or> addUses t1 u = Inr t'"
    by (auto simp: visitValue_def Let_def split: sum.splits if_splits)
  from visitValue_body_shape [OF assms(1,2) body] obtain c g where
    t1: "t1 = t\<lparr>fn := g, latticeCells := (latticeCells t)(u \<mapsto> c)\<rparr>" and g: "sameStruct fu g"
    by blast
  from rest show ?thesis
  proof
    assume "t' = t1"
    with t1 g show ?thesis by simp
  next
    assume "addUses t1 u = Inr t'"
    from addUses_frame [OF this] obtain es where
      "t' = t1\<lparr>uses := uses t1 @ filter (\<lambda>use. u \<noteq> use) (lookupList (defUse t1) u),
               edges := edges t1 @ es\<rparr>" by blast
    with t1 g show ?thesis by simp
  qed
qed

lemma visitDest_static:
  assumes "rewriterLocal rw"
  shows "visitDest rw dv t vs = Inr t' \<Longrightarrow> sameStruct fu (fn t) \<Longrightarrow>
         sameStruct fu (fn t') \<and> defBlock t' = defBlock t"
proof (induction vs arbitrary: t)
  case Nil
  then show ?case by simp
next
  case (Cons v vs)
  show ?case
  proof (cases "Op (vals (fn t) v) = OpPhi \<or> \<not> dv")
    case True
    with Cons.prems(1) obtain t1 where vv: "visitValue rw t v = Inr t1"
      and r: "visitDest rw dv t1 vs = Inr t'"
      by (auto split: sum.splits)
    from visitValue_static [OF assms Cons.prems(2) vv]
    have 1: "sameStruct fu (fn t1)" "defBlock t1 = defBlock t" by simp_all
    from Cons.IH [OF r 1(1)] 1(2) show ?thesis by simp
  next
    case False
    with Cons.prems(1) have "visitDest rw dv t vs = Inr t'" by simp
    from Cons.IH [OF this Cons.prems(2)] show ?thesis .
  qed
qed

lemma sccp_step_static:
  assumes rl: "rewriterLocal rw" and ss: "sameStruct fu (fn t)" and st: "sccp_step rw t = Inr t'"
  shows "sameStruct fu (fn t') \<and> defBlock t' = defBlock t"
proof (cases "edges t")
  case (Cons e es)
  with st have ve: "visitEdge rw (t\<lparr>edges := es\<rparr>) e = Inr t'" by (simp add: sccp_step_def)
  show ?thesis
  proof (cases "isVisited (t\<lparr>edges := es\<rparr>) e")
    case True
    with ve have "t' = t\<lparr>edges := es\<rparr>" by (simp add: visitEdge_def)
    with ss show ?thesis by simp
  next
    case False
    define t1 where "t1 = t\<lparr>edges := es, visited := insert e (visited t)\<rparr>"
    from ve False obtain dv t2 where
      vd: "visitDest rw dv t1 (Values (blks (fn t1) (snd e))) = Inr t2"
      and pr: "t' = t2 \<or> propagate t2 (snd e) = Inr t'"
      by (auto simp: visitEdge_def Let_def t1_def split: sum.splits if_splits)
    have "sameStruct fu (fn t1)" using ss by (simp add: t1_def)
    from visitDest_static [OF rl vd this]
    have 2: "sameStruct fu (fn t2)" "defBlock t2 = defBlock t" by (simp_all add: t1_def)
    from pr show ?thesis
    proof
      assume "t' = t2"
      with 2 show ?thesis by simp
    next
      assume "propagate t2 (snd e) = Inr t'"
      from propagate_frame [OF this] obtain es' where "t' = t2\<lparr>edges := edges t2 @ es'\<rparr>" by blast
      with 2 show ?thesis by simp
    qed
  qed
next
  case Nil
  show ?thesis
  proof (cases "uses t")
    case Nil': Nil
    with Nil st have "t' = t" by (simp add: sccp_step_def)
    with ss show ?thesis by simp
  next
    case (Cons u us)
    with Nil st have vv: "visitValue rw (t\<lparr>uses := us\<rparr>) u = Inr t'" by (simp add: sccp_step_def)
    have "sameStruct fu (fn (t\<lparr>uses := us\<rparr>))" using ss by simp
    from visitValue_static [OF rl this vv] show ?thesis by simp
  qed
qed

lemma sccp_loop_static:
  assumes rl: "rewriterLocal rw"
  shows "sccp_loop rw n t = Some (Inr t') \<Longrightarrow> sameStruct fu (fn t) \<Longrightarrow>
         sameStruct fu (fn t') \<and> defBlock t' = defBlock t"
proof (induction n arbitrary: t)
  case 0
  then show ?case by (auto split: if_splits)
next
  case (Suc n)
  show ?case
  proof (cases "edges t = [] \<and> uses t = []")
    case True
    with Suc.prems show ?thesis by simp
  next
    case False
    with Suc.prems(1) obtain t1 where st: "sccp_step rw t = Inr t1"
      and r: "sccp_loop rw n t1 = Some (Inr t')"
      by (auto split: sum.splits)
    from sccp_step_static [OF rl Suc.prems(2) st]
    have 1: "sameStruct fu (fn t1)" "defBlock t1 = defBlock t" by simp_all
    from Suc.IH [OF r 1(1)] 1(2) show ?thesis by simp
  qed
qed


text \<open>
  C6. The pass on the function \<open>fu\<close>: the def-use chains are built, the loop runs to its
  fixed point \<open>t\<close>, and \<^verbatim>\<open>replaceConst\<close> ranges over the keys of the lattice table (each
  key once). A value \<open>v\<close> whose cell at the fixed point is Const(k), \<open>k\<close> a constant-literal
  value, and whose own opcode is not a constant-literal opcode, then has the opcode and the
  \<open>AuxInt\<close> of \<open>k\<close> and no arguments, at the same address and with the same type, block and
  position. Every If block of the function whose control value is \<open>v\<close> is now a Plain
  block without control values, with the branch likelihood reset, and its successors are
  the former ones with the one at index \<open>k.AuxInt\<close> removed: with two successors, the
  false successor goes when \<open>k.AuxInt = 1\<close> and the true successor when \<open>k.AuxInt = 0\<close>.
\<close>

theorem replaceConst_const:
  assumes "rewriterLocal rw"
    and "buildDefUses ks (initial fu) = Inr t1" and "sccp_loop rw n t1 = Some (Inr t)"
    and "replaceConst order t = Inr (t', constCnt, rewireCnt)"
    and "distinct order" and "v \<in> set order"
    and "latticeCells t v = Some \<lparr>tag = constant_t, val = Some k\<rparr>"
    and "\<not> isConst (vals (fn t) v)" and "isConst (vals (fn t) k)"
  shows "Op (vals (fn t') v) = Op (vals (fn t) k) \<and> AuxInt (vals (fn t') v) = AuxInt (vals (fn t) k)
       \<and> Args (vals (fn t') v) = []
       \<and> Type (vals (fn t') v) = Type (vals (fn t) v) \<and> Block (vals (fn t') v) = Block (vals (fn t) v)
       \<and> Pos (vals (fn t') v) = Pos (vals (fn t) v)
       \<and> (\<forall>blk\<in>set (Blocks fu).
             Kind (blks fu blk) = BlockIf \<and> Controls (blks fu blk) = [v] \<longrightarrow>
             Kind (blks (fn t') blk) = BlockPlain \<and> Controls (blks (fn t') blk) = []
             \<and> Likely (blks (fn t') blk) = BranchUnknown
             \<and> map eb (Succs (blks (fn t') blk)) =
                 removeAt (nat (sint (AuxInt (vals (fn t) k)))) (map eb (Succs (blks fu blk)))
             \<and> 0 \<le> sint (AuxInt (vals (fn t) k))
             \<and> sint (AuxInt (vals (fn t) k)) < int (length (Succs (blks fu blk)))
             \<and> (\<forall>s0 s1. Succs (blks fu blk) = [s0, s1] \<longrightarrow>
                  (AuxInt (vals (fn t) k) = 1 \<longrightarrow> map eb (Succs (blks (fn t') blk)) = [eb s0])
                  \<and> (AuxInt (vals (fn t) k) = 0 \<longrightarrow> map eb (Succs (blks (fn t') blk)) = [eb s1])))"
proof -
  from buildDefUses_initial [OF assms(2)] have fn1: "fn t1 = fu" by simp
  then have "sameStruct fu (fn t1)" by (simp add: sameStruct_refl)
  from sccp_loop_static [OF assms(1,3) this]
  have ss: "sameStruct fu (fn t)" and db: "defBlock t = defBlock t1" by simp_all
  from ss have bl: "blks (fn t) = blks fu" by (simp add: sameStruct_def)
  have idx: "set (lookupList (defBlock t) u) = {blk \<in> set (Blocks fu). u \<in> set (Controls (blks fu blk))}"
    for u
    unfolding db by (rule buildDefUses_defBlock [OF assms(2)])
  note T = replaceConst_const_index [OF assms(4-9)]
  have bl': "\<forall>blk\<in>set (Blocks fu).
             Kind (blks fu blk) = BlockIf \<and> Controls (blks fu blk) = [v] \<longrightarrow>
             Kind (blks (fn t') blk) = BlockPlain \<and> Controls (blks (fn t') blk) = []
             \<and> Likely (blks (fn t') blk) = BranchUnknown
             \<and> map eb (Succs (blks (fn t') blk)) =
                 removeAt (nat (sint (AuxInt (vals (fn t) k)))) (map eb (Succs (blks fu blk)))
             \<and> 0 \<le> sint (AuxInt (vals (fn t) k))
             \<and> sint (AuxInt (vals (fn t) k)) < int (length (Succs (blks fu blk)))
             \<and> (\<forall>s0 s1. Succs (blks fu blk) = [s0, s1] \<longrightarrow>
                  (AuxInt (vals (fn t) k) = 1 \<longrightarrow> map eb (Succs (blks (fn t') blk)) = [eb s0])
                  \<and> (AuxInt (vals (fn t) k) = 0 \<longrightarrow> map eb (Succs (blks (fn t') blk)) = [eb s1]))"
  proof (intro ballI impI)
    fix blk
    assume mem: "blk \<in> set (Blocks fu)"
      and hyp: "Kind (blks fu blk) = BlockIf \<and> Controls (blks fu blk) = [v]"
    from mem hyp have 1: "blk \<in> set (lookupList (defBlock t) v)" unfolding idx by simp
    from hyp have 2: "Kind (blks (fn t) blk) = BlockIf
        \<and> (\<forall>u. u \<noteq> v \<longrightarrow> blk \<notin> set (lookupList (defBlock t) u))"
      unfolding idx bl by simp
    from T have "\<forall>blk\<in>set (lookupList (defBlock t) v).
             Kind (blks (fn t) blk) = BlockIf
             \<and> (\<forall>u. u \<noteq> v \<longrightarrow> blk \<notin> set (lookupList (defBlock t) u)) \<longrightarrow>
             Kind (blks (fn t') blk) = BlockPlain \<and> Controls (blks (fn t') blk) = []
             \<and> Likely (blks (fn t') blk) = BranchUnknown
             \<and> map eb (Succs (blks (fn t') blk)) =
                 removeAt (nat (sint (AuxInt (vals (fn t) k)))) (map eb (Succs (blks (fn t) blk)))
             \<and> 0 \<le> sint (AuxInt (vals (fn t) k))
             \<and> sint (AuxInt (vals (fn t) k)) < int (length (Succs (blks (fn t) blk)))
             \<and> (\<forall>s0 s1. Succs (blks (fn t) blk) = [s0, s1] \<longrightarrow>
                  (AuxInt (vals (fn t) k) = 1 \<longrightarrow> map eb (Succs (blks (fn t') blk)) = [eb s0])
                  \<and> (AuxInt (vals (fn t) k) = 0 \<longrightarrow> map eb (Succs (blks (fn t') blk)) = [eb s1]))"
      by (elim conjE)
    from this [rule_format, OF 1 2]
    show "Kind (blks (fn t') blk) = BlockPlain \<and> Controls (blks (fn t') blk) = []
             \<and> Likely (blks (fn t') blk) = BranchUnknown
             \<and> map eb (Succs (blks (fn t') blk)) =
                 removeAt (nat (sint (AuxInt (vals (fn t) k)))) (map eb (Succs (blks fu blk)))
             \<and> 0 \<le> sint (AuxInt (vals (fn t) k))
             \<and> sint (AuxInt (vals (fn t) k)) < int (length (Succs (blks fu blk)))
             \<and> (\<forall>s0 s1. Succs (blks fu blk) = [s0, s1] \<longrightarrow>
                  (AuxInt (vals (fn t) k) = 1 \<longrightarrow> map eb (Succs (blks (fn t') blk)) = [eb s0])
                  \<and> (AuxInt (vals (fn t) k) = 0 \<longrightarrow> map eb (Succs (blks (fn t') blk)) = [eb s1]))"
      unfolding bl .
  qed
  from T have valpart: "Op (vals (fn t') v) = Op (vals (fn t) k) \<and> AuxInt (vals (fn t') v) = AuxInt (vals (fn t) k)
       \<and> Args (vals (fn t') v) = []
       \<and> Type (vals (fn t') v) = Type (vals (fn t) v) \<and> Block (vals (fn t') v) = Block (vals (fn t) v)
       \<and> Pos (vals (fn t') v) = Pos (vals (fn t) v)"
    by (elim conjE) (intro conjI; assumption)
  from valpart bl' show ?thesis by (elim conjE) (intro conjI; assumption)
qed

theorem replaceConst_const_witness:
  "Op (vals (fn (fst (projr (replaceConst [2, 3, 4, 5, 6] branchFixpoint)))) 3) = OpConstBool
   \<and> Kind (blks (fn (fst (projr (replaceConst [2, 3, 4, 5, 6] branchFixpoint)))) 0) = BlockPlain
   \<and> map eb (Succs (blks (fn (fst (projr (replaceConst [2, 3, 4, 5, 6] branchFixpoint)))) 0)) = [1]"
proof -
  have "case buildDefUses [2, 4, 5] (initial branchFunc) of Inl e \<Rightarrow> False | Inr t0 \<Rightarrow> True"
    by code_simp
  then obtain t0 where b: "buildDefUses [2, 4, 5] (initial branchFunc) = Inr t0"
    by (cases "buildDefUses [2, 4, 5] (initial branchFunc)") simp_all
  have "case sccp_loop rewriteAdd32 20 (projr (buildDefUses [2, 4, 5] (initial branchFunc))) of
          Some (Inr t) \<Rightarrow> True | _ \<Rightarrow> False"
    by code_simp
  then have "case sccp_loop rewriteAdd32 20 t0 of Some (Inr t) \<Rightarrow> True | _ \<Rightarrow> False"
    by (simp add: b)
  then obtain t where l: "sccp_loop rewriteAdd32 20 t0 = Some (Inr t)"
    by (cases "sccp_loop rewriteAdd32 20 t0"; cases "the (sccp_loop rewriteAdd32 20 t0)") simp_all
  from b l have t: "t = branchFixpoint" by (simp add: branchFixpoint_def)
  have "case replaceConst [2, 3, 4, 5, 6] branchFixpoint of Inl e \<Rightarrow> False | Inr st \<Rightarrow> True"
    by code_simp
  then obtain t' c r where r: "replaceConst [2, 3, 4, 5, 6] branchFixpoint = Inr (t', c, r)"
    by (auto split: sum.splits)
  have 5: "distinct [2, 3, 4, 5, 6 :: nat]" and 6: "(3::nat) \<in> set [2, 3, 4, 5, 6]" by simp_all
  have 7: "latticeCells branchFixpoint 3 = Some \<lparr>tag = constant_t, val = Some 2\<rparr>" by code_simp
  have 8: "\<not> isConst (vals (fn branchFixpoint) 3)" by code_simp
  have 9: "isConst (vals (fn branchFixpoint) 2)" by code_simp
  have op: "Op (vals (fn branchFixpoint) 2) = OpConstBool"
    and aux: "AuxInt (vals (fn branchFixpoint) 2) = 1" by code_simp+
  have blk: "0 \<in> set (Blocks branchFunc)"
    and kc: "Kind (blks branchFunc 0) = BlockIf \<and> Controls (blks branchFunc 0) = [3]"
    and succs: "Succs (blks branchFunc 0) = [\<lparr>eb = 1, ei = 0\<rparr>, \<lparr>eb = 2, ei = 0\<rparr>]"
    by (simp_all add: branchFunc_def mkBlock_def)
  note T = replaceConst_const [OF rewriterLocal_rewriteAdd32 b l [unfolded t] r 5 6 7 8 9]
  from T have "Op (vals (fn t') 3) = Op (vals (fn branchFixpoint) 2)" by (rule conjunct1)
  then have a: "Op (vals (fn t') 3) = OpConstBool" by (simp only: op)
  from T blk kc have b': "Kind (blks (fn t') 0) = BlockPlain" by blast
  from T blk kc succs aux have c': "map eb (Succs (blks (fn t') 0)) = [eb \<lparr>eb = 1, ei = 0\<rparr>]"
    by blast
  from a b' c' show ?thesis by (simp add: r)
qed

end
